theory Spec2Isabelle
  imports Complex_Main "HOL-Library.Word"
begin

section \<open>Data model (types/domainTypes)\<close>

text \<open>
  A JavaScript string is a sequence of UTF-16 code units. Identifiers, domains and
  labels are all such strings; only \<open>normalizeDomain\<close> and \<open>deriveCore\<close> look
  inside them. \<open>js\<close> writes an ASCII literal as such a string.
\<close>

type_synonym jsstring = "16 word list"

definition js :: "string \<Rightarrow> jsstring" where
  "js cs = map (\<lambda>c. of_nat (of_char c)) cs"

datatype DomainStatus = Queued | Checking | Available | Taken | Unknown

datatype RdapStatus = RdapAvailable | RdapTaken | RdapUnknown | NotChecked

datatype DomainSource = Import

record DomainRecord =
  rid :: jsstring
  domain :: jsstring
  core :: jsstring
  status :: DomainStatus
  rdapStatus :: RdapStatus
  createdAt :: int
  checkedAt :: "int option"
  source :: DomainSource

section \<open>Normalisation of input (utils/domainUtils)\<close>

text \<open>
  The set of \<open>String.prototype.trim\<close> and of the regular expression class \<open>\s\<close>:
  tab, line feed, vertical tab, form feed, carriage return, space, no-break space,
  U+1680, U+2000 to U+200A, the line and paragraph separators, U+202F, U+205F, U+3000
  and the byte order mark.
\<close>

definition isWhiteSpace :: "16 word \<Rightarrow> bool" where
  "isWhiteSpace c \<longleftrightarrow>
     c \<in> {0x09, 0x0A, 0x0B, 0x0C, 0x0D, 0x20, 0xA0, 0x1680, 0x2028, 0x2029, 0x202F,
          0x205F, 0x3000, 0xFEFF}
     \<or> (0x2000 \<le> c \<and> c \<le> 0x200A)"

text \<open>The class \<open>[a-z]\<close> under the flag \<open>i\<close>: the ASCII letters of both cases.\<close>

definition isAsciiLetter :: "16 word \<Rightarrow> bool" where
  "isAsciiLetter c \<longleftrightarrow> (0x61 \<le> c \<and> c \<le> 0x7A) \<or> (0x41 \<le> c \<and> c \<le> 0x5A)"

text \<open>The class \<open>[a-z0-9.-]\<close>.\<close>

definition domainChar :: "16 word \<Rightarrow> bool" where
  "domainChar c \<longleftrightarrow>
     (0x61 \<le> c \<and> c \<le> 0x7A) \<or> (0x30 \<le> c \<and> c \<le> 0x39) \<or> c = 0x2E \<or> c = 0x2D"

definition trim :: "jsstring \<Rightarrow> jsstring" where
  "trim s = rev (dropWhile isWhiteSpace (rev (dropWhile isWhiteSpace s)))"

text \<open>\<open>replace(/^[a-z]+:\/\//i, "")\<close>: a leading run of letters followed by \<open>://\<close>.\<close>

definition stripScheme :: "jsstring \<Rightarrow> jsstring" where
  "stripScheme s =
     (let r = dropWhile isAsciiLetter s
      in if takeWhile isAsciiLetter s \<noteq> [] \<and> take 3 r = [0x3A, 0x2F, 0x2F]
         then drop 3 r else s)"

text \<open>\<open>replace(/^\/\//, "")\<close>.\<close>

definition stripSlashes :: "jsstring \<Rightarrow> jsstring" where
  "stripSlashes s = (if take 2 s = [0x2F, 0x2F] then drop 2 s else s)"

text \<open>\<open>split(/[/?#]/)[0]\<close>: what stands before the first slash, question mark or hash.\<close>

definition firstSegment :: "jsstring \<Rightarrow> jsstring" where
  "firstSegment s = takeWhile (\<lambda>c. c \<noteq> 0x2F \<and> c \<noteq> 0x3F \<and> c \<noteq> 0x23) s"

text \<open>\<open>replace(/^\.*/, "").replace(/\.*$/, "")\<close>.\<close>

definition stripDots :: "jsstring \<Rightarrow> jsstring" where
  "stripDots s = rev (dropWhile (\<lambda>c. c = 0x2E) (rev (dropWhile (\<lambda>c. c = 0x2E) s)))"

text \<open>
  \<open>toLowerCase\<close> is the Unicode case mapping of the JavaScript engine, a table that
  is no part of the repository: \<open>normalizeDomain\<close> takes it as its first argument.
  \<open>None\<close> is the result \<open>null\<close>.
\<close>

definition normalizeDomain :: "(jsstring \<Rightarrow> jsstring) \<Rightarrow> jsstring \<Rightarrow> jsstring option" where
  "normalizeDomain toLowerCase v =
     (if v = [] then None
      else let s0 = toLowerCase (trim v)
      in if s0 = [] then None
      else let s1 = filter (\<lambda>c. \<not> isWhiteSpace c) s0;
               s2 = stripScheme s1;
               s3 = stripSlashes s2;
               s4 = firstSegment s3;
               s5 = stripDots s4
      in if s5 = [] then None
      else let s6 = (if 0x2E \<in> set s5 then s5 else s5 @ js ''.com'')
      in if s6 \<noteq> [] \<and> list_all domainChar s6 then Some s6 else None)"

text \<open>The case mapping restricted to ASCII, for concrete runs.\<close>

definition asciiLower :: "jsstring \<Rightarrow> jsstring" where
  "asciiLower s = map (\<lambda>c. if 0x41 \<le> c \<and> c \<le> 0x5A then c + 0x20 else c) s"

fun splitOn :: "'a \<Rightarrow> 'a list \<Rightarrow> 'a list list" where
  "splitOn c [] = [[]]"
| "splitOn c (x # xs) =
     (if x = c then [] # splitOn c xs
      else (case splitOn c xs of [] \<Rightarrow> [[x]] | p # ps \<Rightarrow> (x # p) # ps))"

fun joinWith :: "'a list \<Rightarrow> 'a list list \<Rightarrow> 'a list" where
  "joinWith sep [] = []"
| "joinWith sep [p] = p"
| "joinWith sep (p # ps) = p @ sep @ joinWith sep ps"

definition deriveCore :: "jsstring \<Rightarrow> jsstring" where
  "deriveCore d =
     (let trimmed = (if take 4 d = js ''www.'' then drop 4 d else d);
          parts = splitOn 0x2E trimmed
      in if length parts \<le> 1 then trimmed else joinWith [0x2E] (butlast parts))"

section \<open>The lookups (services/lookupService)\<close>

text \<open>
  What \<open>fetch\<close> gives back is an input of the model. A reply is a rejected promise
  (the transport failed) or a response with its HTTP status; the body of a DNS
  response either fails to parse or yields the value of \<open>data?.Status\<close>, which is
  \<open>None\<close> when its \<open>typeof\<close> is not \<open>"number"\<close>.
\<close>

datatype JsNumber = Finite real | PosInfinity | NegInfinity | NaN

text \<open>\<open>code === n\<close> for a finite literal \<open>n\<close>.\<close>

fun strictEq :: "JsNumber \<Rightarrow> real \<Rightarrow> bool" where
  "strictEq (Finite x) n = (x = n)"
| "strictEq _ n = False"

datatype DnsBody = BadJson | Json "JsNumber option"

datatype DnsReply = DnsFetchFailed | DnsResponse nat DnsBody

datatype RdapReply = RdapFetchFailed | RdapResponse nat

text \<open>\<open>response.ok\<close>: a status from 200 to 299.\<close>

definition responseOk :: "nat \<Rightarrow> bool" where
  "responseOk st \<longleftrightarrow> 200 \<le> st \<and> st \<le> 299"

fun runRdapLookup :: "RdapReply \<Rightarrow> RdapStatus" where
  "runRdapLookup RdapFetchFailed = RdapUnknown"
| "runRdapLookup (RdapResponse st) =
     (if st = 404 then RdapAvailable else if responseOk st then RdapTaken else RdapUnknown)"

text \<open>
  \<open>runDnsLookup record\<close>, at \<open>Date.now() = now\<close>. The reply of the RDAP service is
  read only on the branch \<open>code === 3\<close>, where the function calls \<open>runRdapLookup\<close>.
\<close>

definition runDnsLookup :: "DomainRecord \<Rightarrow> int \<Rightarrow> DnsReply \<Rightarrow> RdapReply \<Rightarrow> DomainRecord" where
  "runDnsLookup record now reply rdapReply =
     (let next = record\<lparr>checkedAt := Some now\<rparr>
      in case reply of
           DnsFetchFailed \<Rightarrow> next\<lparr>status := Unknown, rdapStatus := NotChecked\<rparr>
         | DnsResponse st body \<Rightarrow>
             if \<not> responseOk st then next\<lparr>status := Unknown, rdapStatus := NotChecked\<rparr>
             else (case body of
                 BadJson \<Rightarrow> next\<lparr>status := Unknown, rdapStatus := NotChecked\<rparr>
               | Json code \<Rightarrow>
                   if (case code of Some n \<Rightarrow> strictEq n 3 | None \<Rightarrow> False)
                   then next\<lparr>status := Available, rdapStatus := runRdapLookup rdapReply\<rparr>
                   else if (case code of Some n \<Rightarrow> strictEq n 2 \<or> strictEq n 5 | None \<Rightarrow> True)
                   then next\<lparr>status := Unknown, rdapStatus := NotChecked\<rparr>
                   else next\<lparr>status := Taken, rdapStatus := NotChecked\<rparr>))"

definition runRdapOnly :: "DomainRecord \<Rightarrow> RdapReply \<Rightarrow> int \<Rightarrow> DomainRecord" where
  "runRdapOnly record rdapReply now =
     record\<lparr>rdapStatus := runRdapLookup rdapReply, checkedAt := Some now, status := status record\<rparr>"

section \<open>The scheduler state (hooks/useDomainChecker)\<close>

datatype Stage = Dns | Rdap

record Stats =
  totalN :: int
  queueCount :: int
  totalAvailable :: int
  totalTaken :: int
  totalChecked :: int
  takenOverall :: int

text \<open>The status line; the count of a message is its argument.\<close>

datatype Message =
    MsgIdle
  | MsgLoadFailed
  | MsgNoNew
  | MsgAdded nat
  | MsgRunning Stage
  | MsgChecked Stage nat
  | MsgStopFinishing
  | MsgNothing Stage
  | MsgCheckerIdle Stage
  | MsgStopRequested Stage
  | MsgCleared

text \<open>
  A worker is one of the async functions that \<open>startChecker\<close> launches. Between two
  of its suspensions it runs alone; \<open>Phase\<close> names the suspension it waits at:
  \<^item> \<open>Claimed c before\<close>: inside \<open>processOne\<close>, the candidate \<open>c\<close> is in flight and
    its lookup has not come back;
  \<^item> \<open>Written c before\<close>: the result is written, \<open>putRecords\<close> is awaited and the id
    is still in the in-flight set;
  \<^item> \<open>Returned before\<close>: \<open>processOne\<close> has returned and the loop body resumes after
    \<open>await processOne()\<close>;
  \<^item> \<open>Exited\<close>: the loop is left.
  \<open>before\<close> is the value of the local variable \<open>before\<close> of the loop body.
\<close>

datatype Phase =
    Claimed DomainRecord nat
  | Written DomainRecord nat
  | Returned nat
  | Exited

record Worker =
  wstage :: Stage
  wpool :: nat
  phase :: Phase

text \<open>One call of \<open>startChecker\<close> that got past its guard, with its local counter.\<close>

record Pool =
  pstage :: Stage
  processedCount :: nat
  finished :: bool

text \<open>
  The refs of the hook and its state \<open>running\<close> and \<open>statusMessage\<close>. \<open>records\<close> is
  a JavaScript array: a slot is \<open>None\<close> where the array has a hole. \<open>running\<close> is
  React state: \<open>setRunning\<close> changes its value, and \<open>startChecker\<close> and
  \<open>stopChecker\<close> read the value that the last render captured in their closures,
  which is \<open>renderedRunning\<close>. The re-render timer of \<open>syncRender\<close> and the writes
  to IndexedDB are left out: \<open>putRecords\<close> and \<open>clearAllRecords\<close> are taken to
  resolve.
\<close>

record Sched =
  records :: "DomainRecord option list"
  index :: "jsstring \<rightharpoonup> nat"
  stats :: Stats
  stopRequested :: "Stage \<Rightarrow> bool"
  inFlight :: "Stage \<Rightarrow> jsstring set"
  queueRef :: "Stage \<Rightarrow> jsstring list"
  queueSetRef :: "Stage \<Rightarrow> jsstring set"
  running :: "Stage \<Rightarrow> bool"
  renderedRunning :: "Stage \<Rightarrow> bool"
  statusMessage :: Message
  pools :: "Pool list"
  workers :: "Worker list"

definition BATCH_SIZE :: nat where
  "BATCH_SIZE = 50"

definition zeroStats :: Stats where
  "zeroStats = \<lparr>totalN = 0, queueCount = 0, totalAvailable = 0, totalTaken = 0,
     totalChecked = 0, takenOverall = 0\<rparr>"

text \<open>The hook as it is mounted, before the stored records are loaded.\<close>

definition mount :: Sched where
  "mount = \<lparr>records = [], index = Map.empty, stats = zeroStats,
     stopRequested = (\<lambda>_. False), inFlight = (\<lambda>_. {}),
     queueRef = (\<lambda>_. []), queueSetRef = (\<lambda>_. {}),
     running = (\<lambda>_. False), renderedRunning = (\<lambda>_. False), statusMessage = MsgIdle,
     pools = [], workers = []\<rparr>"

subsection \<open>Arrays\<close>

text \<open>Reading outside the array or at a hole gives \<open>undefined\<close>; writing past the end
  extends the array and leaves holes.\<close>

definition arrayGet :: "'a option list \<Rightarrow> nat \<Rightarrow> 'a option" where
  "arrayGet xs i = (if i < length xs then xs ! i else None)"

definition arraySet :: "'a option list \<Rightarrow> nat \<Rightarrow> 'a \<Rightarrow> 'a option list" where
  "arraySet xs i v =
     (if i < length xs then xs[i := Some v]
      else xs @ replicate (i - length xs) None @ [Some v])"

subsection \<open>Statistics\<close>

text \<open>The body of the \<open>forEach\<close> of \<open>recomputeStats\<close>; \<open>forEach\<close> skips holes.\<close>

definition tally :: "DomainRecord \<Rightarrow> Stats \<Rightarrow> Stats" where
  "tally record acc =
     (let a1 = (if status record = Queued \<or> status record = Checking
                then acc\<lparr>queueCount := queueCount acc + 1\<rparr> else acc);
          a2 = (if status record = Available
                then a1\<lparr>totalAvailable := totalAvailable a1 + 1\<rparr> else a1);
          a3 = (if status record = Taken
                then a2\<lparr>totalTaken := totalTaken a2 + 1\<rparr> else a2);
          a4 = (if status record \<noteq> Queued \<and> status record \<noteq> Checking
                then a3\<lparr>totalChecked := totalChecked a3 + 1\<rparr> else a3)
      in if status record = Taken \<or> rdapStatus record = RdapTaken
         then a4\<lparr>takenOverall := takenOverall a4 + 1\<rparr> else a4)"

definition recomputeStats :: "DomainRecord option list \<Rightarrow> Stats" where
  "recomputeStats snapshot =
     (fold (\<lambda>slot acc. case slot of None \<Rightarrow> acc | Some record \<Rightarrow> tally record acc)
        snapshot zeroStats)\<lparr>totalN := int (length snapshot)\<rparr>"

definition applyDelta :: "DomainRecord \<Rightarrow> int \<Rightarrow> Stats \<Rightarrow> Stats" where
  "applyDelta record delta st =
     (let a1 = (if status record = Queued \<or> status record = Checking
                then st\<lparr>queueCount := queueCount st + delta\<rparr> else st);
          a2 = (if status record = Available
                then a1\<lparr>totalAvailable := totalAvailable a1 + delta\<rparr> else a1);
          a3 = (if status record = Taken
                then a2\<lparr>totalTaken := totalTaken a2 + delta\<rparr> else a2);
          a4 = (if status record \<noteq> Queued \<and> status record \<noteq> Checking
                then a3\<lparr>totalChecked := totalChecked a3 + delta\<rparr> else a3)
      in if status record = Taken \<or> rdapStatus record = RdapTaken
         then a4\<lparr>takenOverall := takenOverall a4 + delta\<rparr> else a4)"

definition adjustStats :: "DomainRecord option \<Rightarrow> DomainRecord \<Rightarrow> Stats \<Rightarrow> Stats" where
  "adjustStats prev next st =
     applyDelta next 1 (case prev of None \<Rightarrow> st | Some p \<Rightarrow> applyDelta p (- 1) st)"

subsection \<open>Queues\<close>

definition rdapFinalStatuses :: "RdapStatus set" where
  "rdapFinalStatuses = {RdapAvailable, RdapTaken}"

definition isRdapCandidate :: "DomainRecord \<Rightarrow> bool" where
  "isRdapCandidate record \<longleftrightarrow>
     status record = Available \<and> rdapStatus record \<notin> rdapFinalStatuses"

text \<open>
  A queue is the array \<open>queueRef.current\<close> together with the membership set
  \<open>setRef.current\<close>. \<open>addToQueue\<close> returns early when the set has the id, and
  otherwise adds the id to the set and pushes it on the array.
  \<open>removeFromQueue\<close> deletes from the set only: the array entry stays behind.
\<close>

type_synonym dqueue = "jsstring list \<times> jsstring set"

definition addToQueue :: "dqueue \<Rightarrow> jsstring \<Rightarrow> dqueue" where
  "addToQueue qs k =
     (case qs of (q, s) \<Rightarrow> if k \<in> s then (q, s) else (q @ [k], insert k s))"

definition removeFromQueue :: "jsstring set \<Rightarrow> jsstring \<Rightarrow> jsstring set" where
  "removeFromQueue s k = s - {k}"

text \<open>Enqueuing the keys of a list one after the other, with nothing in between.\<close>

definition addAll :: "dqueue \<Rightarrow> jsstring list \<Rightarrow> dqueue" where
  "addAll qs ks = foldl addToQueue qs ks"

text \<open>The two calls on the queue of a stage of the scheduler.\<close>

definition enqueueAt :: "Stage \<Rightarrow> jsstring \<Rightarrow> Sched \<Rightarrow> Sched" where
  "enqueueAt st k s =
     (case addToQueue (queueRef s st, queueSetRef s st) k of
        (q, m) \<Rightarrow> s\<lparr>queueRef := (queueRef s)(st := q), queueSetRef := (queueSetRef s)(st := m)\<rparr>)"

definition dequeueAt :: "Stage \<Rightarrow> jsstring \<Rightarrow> Sched \<Rightarrow> Sched" where
  "dequeueAt st k s =
     s\<lparr>queueSetRef := (queueSetRef s)(st := removeFromQueue (queueSetRef s st) k)\<rparr>"

subsection \<open>The store\<close>

text \<open>The body of the \<open>forEach\<close> of \<open>upsertRecords\<close>, for one item.\<close>

definition upsertOne :: "DomainRecord \<Rightarrow> Sched \<Rightarrow> Sched" where
  "upsertOne item s =
     (let existingIndex = index s (rid item);
          prev = (case existingIndex of None \<Rightarrow> None | Some i \<Rightarrow> arrayGet (records s) i);
          s1 = (case existingIndex of
                  Some i \<Rightarrow> s\<lparr>records := arraySet (records s) i item\<rparr>
                | None \<Rightarrow> s\<lparr>index := (index s)(rid item \<mapsto> length (records s)),
                           records := records s @ [Some item],
                           stats := (stats s)\<lparr>totalN := totalN (stats s) + 1\<rparr>\<rparr>);
          s2 = s1\<lparr>stats := adjustStats prev item (stats s1)\<rparr>;
          s3 = (if (case prev of None \<Rightarrow> False | Some p \<Rightarrow> status p = Queued)
                   \<and> status item \<noteq> Queued
                then dequeueAt Dns (rid item) s2 else s2);
          s4 = (if status item = Queued then enqueueAt Dns (rid item) s3 else s3);
          prevRdapCandidate = (case prev of None \<Rightarrow> False | Some p \<Rightarrow> isRdapCandidate p);
          nextRdapCandidate = isRdapCandidate item;
          s5 = (if prevRdapCandidate \<and> \<not> nextRdapCandidate
                then dequeueAt Rdap (rid item) s4 else s4)
      in if nextRdapCandidate then enqueueAt Rdap (rid item) s5 else s5)"

definition upsertRecords :: "DomainRecord list \<Rightarrow> Sched \<Rightarrow> Sched" where
  "upsertRecords updates s = (if updates = [] then s else fold upsertOne updates s)"

text \<open>The record stored under an id, through the index.\<close>

definition stored :: "Sched \<Rightarrow> jsstring \<Rightarrow> DomainRecord option" where
  "stored s k = (case index s k of None \<Rightarrow> None | Some i \<Rightarrow> arrayGet (records s) i)"

text \<open>
  The effect that runs when \<open>getAllRecords\<close> resolves with \<open>items\<close>: the index is
  built from the pairs of id and position, a later pair overriding an earlier one.
\<close>

definition hydrate :: "DomainRecord list \<Rightarrow> Sched \<Rightarrow> Sched" where
  "hydrate items s =
     (let s1 = s\<lparr>records := map Some items,
                 index := fold (\<lambda>(item, idx) m. m(rid item \<mapsto> idx))
                            (zip items [0 ..< length items]) Map.empty\<rparr>;
          nextStats = recomputeStats (map Some items);
          s2 = fold (\<lambda>item t.
                  let t1 = (if status item = Queued then enqueueAt Dns (rid item) t else t)
                  in if isRdapCandidate item then enqueueAt Rdap (rid item) t1 else t1)
                items s1
      in s2\<lparr>stats := nextStats\<rparr>)"

text \<open>
  \<open>enqueueDomains\<close>, from the entries that \<open>parseDomainInput\<close> returns. Each entry
  comes with the values that \<open>createId()\<close> and \<open>Date.now()\<close> return if the entry is
  added.
\<close>

fun collectNew ::
  "(jsstring \<Rightarrow> jsstring) \<Rightarrow> (jsstring \<times> jsstring \<times> int) list \<Rightarrow> jsstring set \<Rightarrow> DomainRecord list"
where
  "collectNew lc [] existing = []"
| "collectNew lc ((entry, newId, now) # es) existing =
     (case normalizeDomain lc entry of
        None \<Rightarrow> collectNew lc es existing
      | Some normalized \<Rightarrow>
          if normalized \<in> existing then collectNew lc es existing
          else \<lparr>rid = newId, domain = normalized, core = deriveCore normalized,
                status = Queued, rdapStatus = NotChecked, createdAt = now,
                checkedAt = None, source = Import\<rparr>
               # collectNew lc es (insert normalized existing))"

definition enqueueDomains ::
  "(jsstring \<Rightarrow> jsstring) \<Rightarrow> (jsstring \<times> jsstring \<times> int) list \<Rightarrow> Sched \<Rightarrow> Sched"
where
  "enqueueDomains lc entries s =
     (let existing = set (map domain (List.map_filter (\<lambda>slot. slot) (records s)));
          toAdd = collectNew lc entries existing
      in if toAdd = [] then s\<lparr>statusMessage := MsgNoNew\<rparr>
         else (upsertRecords toAdd s)\<lparr>statusMessage := MsgAdded (length toAdd)\<rparr>)"

definition handleClear :: "Sched \<Rightarrow> Sched" where
  "handleClear s =
     s\<lparr>stopRequested := (\<lambda>_. True), running := (\<lambda>_. False), records := [],
       index := Map.empty, stats := zeroStats, statusMessage := MsgCleared\<rparr>"

subsection \<open>Workers\<close>

text \<open>
  The loop of \<open>popCandidate\<close> over the array of the queue: an id is dropped when
  the membership set does not have it or the in-flight set has it; an id without an
  index is dropped and deleted from the membership set; otherwise the id is deleted
  from the membership set and its index is returned. The result is the rest of the
  array, the membership set and the id found with its index.
\<close>

fun popLoop ::
  "jsstring list \<Rightarrow> jsstring set \<Rightarrow> jsstring set \<Rightarrow> (jsstring \<rightharpoonup> nat)
   \<Rightarrow> jsstring list \<times> jsstring set \<times> (jsstring \<times> nat) option"
where
  "popLoop [] setRef fl idx = ([], setRef, None)"
| "popLoop (k # q) setRef fl idx =
     (if k \<notin> setRef then popLoop q setRef fl idx
      else if k \<in> fl then popLoop q setRef fl idx
      else (case idx k of
              None \<Rightarrow> popLoop q (setRef - {k}) fl idx
            | Some i \<Rightarrow> (q, setRef - {k}, Some (k, i))))"

text \<open>\<open>popCandidate\<close> returns the slot \<open>recordsRef.current[idx]\<close>, or \<open>null\<close>.\<close>

definition popCandidate :: "Stage \<Rightarrow> Sched \<Rightarrow> DomainRecord option \<times> Sched" where
  "popCandidate checker s =
     (case popLoop (queueRef s checker) (queueSetRef s checker) (inFlight s checker) (index s) of
        (q, m, found) \<Rightarrow>
          ((case found of None \<Rightarrow> None | Some (k, i) \<Rightarrow> arrayGet (records s) i),
           s\<lparr>queueRef := (queueRef s)(checker := q),
             queueSetRef := (queueSetRef s)(checker := m)\<rparr>))"

definition setPhase :: "nat \<Rightarrow> Phase \<Rightarrow> Sched \<Rightarrow> Sched" where
  "setPhase w ph s = s\<lparr>workers := (workers s)[w := (workers s ! w)\<lparr>phase := ph\<rparr>]\<rparr>"

text \<open>
  One pass of worker \<open>w\<close> from the head of its \<open>while\<close> loop to its next suspension:
  the test of the stop flag, \<open>beforeCount = processedCount\<close>, and \<open>processOne\<close> as far as
  its first \<open>await\<close>. For the DNS stage that includes the synchronous part of
  \<open>upsertRecords([{...candidate, status: "checking"}])\<close>.
\<close>

definition loopHead :: "nat \<Rightarrow> Sched \<Rightarrow> Sched" where
  "loopHead w s =
     (let checker = wstage (workers s ! w);
          beforeCount = processedCount (pools s ! wpool (workers s ! w))
      in if stopRequested s checker then setPhase w Exited s
         else (case popCandidate checker s of
             (None, s1) \<Rightarrow> setPhase w (Returned beforeCount) s1
           | (Some candidate, s1) \<Rightarrow>
               let s2 = s1\<lparr>inFlight := (inFlight s1)
                          (checker := insert (rid candidate) (inFlight s1 checker))\<rparr>;
                   s3 = (if checker = Dns
                         then upsertRecords [candidate\<lparr>status := Checking\<rparr>] s2 else s2)
               in setPhase w (Claimed candidate beforeCount) s3))"

text \<open>A new worker of pool \<open>p\<close> runs at once up to its first suspension.\<close>

definition spawnWorker :: "Stage \<Rightarrow> nat \<Rightarrow> Sched \<Rightarrow> Sched" where
  "spawnWorker checker p s =
     loopHead (length (workers s))
       (s\<lparr>workers := workers s @ [\<lparr>wstage = checker, wpool = p, phase = Returned 0\<rparr>]\<rparr>)"

text \<open>
  \<open>startChecker\<close> up to \<open>await Promise.all(workers)\<close>. The guard reads \<open>running\<close>
  as the last render captured it; \<open>setRunning\<close> writes the state.
\<close>

definition startChecker :: "Stage \<Rightarrow> Sched \<Rightarrow> Sched" where
  "startChecker checker s =
     (if renderedRunning s checker then s
      else let s1 = s\<lparr>inFlight := (inFlight s)(checker := {}),
                      stopRequested := (stopRequested s)(checker := False),
                      running := (running s)(checker := True),
                      statusMessage := MsgRunning checker,
                      pools := pools s @ [\<lparr>pstage = checker, processedCount = 0, finished = False\<rparr>]\<rparr>
           in fold (\<lambda>_. spawnWorker checker (length (pools s))) [0 ..< BATCH_SIZE] s1)"

text \<open>The rest of \<open>startChecker\<close>, once every worker of pool \<open>p\<close> has left its loop.\<close>

definition finishChecker :: "nat \<Rightarrow> Sched \<Rightarrow> Sched" where
  "finishChecker p s =
     (if p < length (pools s) \<and> \<not> finished (pools s ! p)
         \<and> list_all (\<lambda>w. phase w = Exited) (filter (\<lambda>w. wpool w = p) (workers s))
      then let checker = pstage (pools s ! p);
               wasStopped = stopRequested s checker
           in s\<lparr>stopRequested := (stopRequested s)(checker := False),
                running := (running s)(checker := False),
                statusMessage :=
                  (if wasStopped then MsgStopFinishing
                   else if processedCount (pools s ! p) = 0 then MsgNothing checker
                   else MsgCheckerIdle checker),
                pools := (pools s)[p := (pools s ! p)\<lparr>finished := True\<rparr>]\<rparr>
      else s)"

definition stopChecker :: "Stage \<Rightarrow> Sched \<Rightarrow> Sched" where
  "stopChecker checker s =
     (if \<not> renderedRunning s checker then s
      else s\<lparr>stopRequested := (stopRequested s)(checker := True),
             statusMessage := MsgStopRequested checker\<rparr>)"

text \<open>
  The lookup of a DNS worker comes back: \<open>runDnsLookup\<close> was called on the candidate
  with status \<open>checking\<close>, and the synchronous part of \<open>upsertRecords([processed])\<close>
  runs.
\<close>

definition dnsSettle :: "nat \<Rightarrow> int \<Rightarrow> DnsReply \<Rightarrow> RdapReply \<Rightarrow> Sched \<Rightarrow> Sched" where
  "dnsSettle w now reply rdapReply s =
     (if w < length (workers s) \<and> wstage (workers s ! w) = Dns
      then (case phase (workers s ! w) of
          Claimed candidate beforeCount \<Rightarrow>
            let processed = runDnsLookup (candidate\<lparr>status := Checking\<rparr>) now reply rdapReply
            in setPhase w (Written candidate beforeCount) (upsertRecords [processed] s)
        | _ \<Rightarrow> s)
      else s)"

text \<open>The same for a worker of the RDAP stage, which calls \<open>runRdapOnly(candidate)\<close>.\<close>

definition rdapSettle :: "nat \<Rightarrow> int \<Rightarrow> RdapReply \<Rightarrow> Sched \<Rightarrow> Sched" where
  "rdapSettle w now rdapReply s =
     (if w < length (workers s) \<and> wstage (workers s ! w) = Rdap
      then (case phase (workers s ! w) of
          Claimed candidate beforeCount \<Rightarrow>
            let processed = runRdapOnly candidate rdapReply now
            in setPhase w (Written candidate beforeCount) (upsertRecords [processed] s)
        | _ \<Rightarrow> s)
      else s)"

text \<open>
  \<open>putRecords\<close> has resolved: the counter of the pool goes up, the status line is
  set, the id leaves the in-flight set and \<open>processOne\<close> returns.
\<close>

definition release :: "nat \<Rightarrow> Sched \<Rightarrow> Sched" where
  "release w s =
     (if w < length (workers s)
      then (case phase (workers s ! w) of
          Written candidate beforeCount \<Rightarrow>
            let checker = wstage (workers s ! w);
                p = wpool (workers s ! w);
                n = processedCount (pools s ! p) + 1
            in setPhase w (Returned beforeCount)
                 (s\<lparr>pools := (pools s)[p := (pools s ! p)\<lparr>processedCount := n\<rparr>],
                    statusMessage := MsgChecked checker n,
                    inFlight := (inFlight s)(checker := inFlight s checker - {rid candidate})\<rparr>)
        | _ \<Rightarrow> s)
      else s)"

text \<open>
  The loop body after \<open>await processOne()\<close>: it leaves the loop on the stop flag,
  or when no progress was made and the membership set of the queue is empty;
  otherwise the next pass starts at once.
\<close>

definition resume :: "nat \<Rightarrow> Sched \<Rightarrow> Sched" where
  "resume w s =
     (if w < length (workers s)
      then (case phase (workers s ! w) of
          Returned beforeCount \<Rightarrow>
            let checker = wstage (workers s ! w);
                progressMade = (processedCount (pools s ! wpool (workers s ! w)) > beforeCount);
                hasMore = (queueSetRef s checker \<noteq> {})
            in if stopRequested s checker then setPhase w Exited s
               else if \<not> progressMade \<and> \<not> hasMore then setPhase w Exited s
               else loopHead w s
        | _ \<Rightarrow> s)
      else s)"

subsection \<open>Runs\<close>

text \<open>
  What can happen to the hook, one event per uninterrupted piece of JavaScript: the
  calls of the control surface, the load of the stored records, and the resumption
  of a worker at one of its suspensions.
\<close>

datatype Event =
    Hydrate "DomainRecord list"
  | LoadFailed
  | Enqueue "(jsstring \<times> jsstring \<times> int) list"
  | Start Stage
  | Stop Stage
  | Clear
  | Render
  | DnsSettle nat int DnsReply RdapReply
  | RdapSettle nat int RdapReply
  | Release nat
  | Resume nat
  | Finish nat

fun step :: "(jsstring \<Rightarrow> jsstring) \<Rightarrow> Event \<Rightarrow> Sched \<Rightarrow> Sched" where
  "step lc (Hydrate items) s = hydrate items s"
| "step lc LoadFailed s = s\<lparr>statusMessage := MsgLoadFailed\<rparr>"
| "step lc (Enqueue entries) s = enqueueDomains lc entries s"
| "step lc (Start checker) s = startChecker checker s"
| "step lc (Stop checker) s = stopChecker checker s"
| "step lc Clear s = handleClear s"
| "step lc Render s = s\<lparr>renderedRunning := running s\<rparr>"
| "step lc (DnsSettle w now reply rdapReply) s = dnsSettle w now reply rdapReply s"
| "step lc (RdapSettle w now rdapReply) s = rdapSettle w now rdapReply s"
| "step lc (Release w) s = release w s"
| "step lc (Resume w) s = resume w s"
| "step lc (Finish p) s = finishChecker p s"

definition run :: "(jsstring \<Rightarrow> jsstring) \<Rightarrow> Event list \<Rightarrow> Sched \<Rightarrow> Sched" where
  "run lc es s = fold (step lc) es s"

subsection \<open>Operations on the store\<close>

text \<open>
  The operations that change the store and its counters: the load of the stored
  records, \<open>enqueueDomains\<close>, a call of \<open>upsertRecords\<close> with any batch, and
  \<open>handleClear\<close>.
\<close>

datatype StoreOp =
    OpHydrate "DomainRecord list"
  | OpEnqueue "(jsstring \<times> jsstring \<times> int) list"
  | OpUpsert "DomainRecord list"
  | OpClear

fun applyOp :: "(jsstring \<Rightarrow> jsstring) \<Rightarrow> StoreOp \<Rightarrow> Sched \<Rightarrow> Sched" where
  "applyOp lc (OpHydrate items) s = hydrate items s"
| "applyOp lc (OpEnqueue entries) s = enqueueDomains lc entries s"
| "applyOp lc (OpUpsert updates) s = upsertRecords updates s"
| "applyOp lc OpClear s = handleClear s"

text \<open>Every position that the index holds lies inside the array of records.\<close>

definition indexInRange :: "Sched \<Rightarrow> bool" where
  "indexInRange s \<longleftrightarrow> (\<forall>k i. index s k = Some i \<longrightarrow> i < length (records s))"

text \<open>What one slot of the array adds to each counter.\<close>

definition slotCount :: "(DomainRecord \<Rightarrow> bool) \<Rightarrow> DomainRecord option \<Rightarrow> int" where
  "slotCount P slot = (case slot of None \<Rightarrow> 0 | Some r \<Rightarrow> if P r then 1 else 0)"

subsection \<open>Answers of the DNS service\<close>


text \<open>
  An authoritative positive answer: an HTTP success whose body has a \<open>Status\<close> of
  type number that is none of 3, 2 and 5.
\<close>

definition authoritativePositive :: "DnsReply \<Rightarrow> bool" where
  "authoritativePositive reply =
     (case reply of
        DnsResponse st (Json (Some n)) \<Rightarrow>
          responseOk st \<and> \<not> strictEq n 3 \<and> \<not> strictEq n 2 \<and> \<not> strictEq n 5
      | _ \<Rightarrow> False)"


subsection \<open>Well-formed stores and held keys\<close>

text \<open>The index sends every id it knows to a slot that holds a record of that id.\<close>

definition storeOk :: "Sched \<Rightarrow> bool" where
  "storeOk s \<longleftrightarrow>
     (\<forall>k i. index s k = Some i \<longrightarrow>
        i < length (records s) \<and> (\<exists>r. records s ! i = Some r \<and> rid r = k))"

text \<open>The id a worker holds: from its claim until \<open>inFlight.delete\<close>.\<close>

fun heldKey :: "Phase \<Rightarrow> jsstring option" where
  "heldKey (Claimed c b) = Some (rid c)"
| "heldKey (Written c b) = Some (rid c)"
| "heldKey (Returned b) = None"
| "heldKey Exited = None"

definition heldKeys :: "Sched \<Rightarrow> Stage \<Rightarrow> jsstring list" where
  "heldKeys s checker =
     List.map_filter (\<lambda>w. if wstage w = checker then heldKey (phase w) else None) (workers s)"

text \<open>The workers of a stage that have not left their loop.\<close>

definition liveWorkers :: "Sched \<Rightarrow> Stage \<Rightarrow> Worker list" where
  "liveWorkers s checker = filter (\<lambda>w. wstage w = checker \<and> phase w \<noteq> Exited) (workers s)"

subsection \<open>Records for concrete runs\<close>

definition exampleAvailable :: DomainRecord where
  "exampleAvailable = \<lparr>rid = js ''k1'', domain = js ''a.test'', core = js ''a'',
     status = Available, rdapStatus = NotChecked, createdAt = 1, checkedAt = Some 2,
     source = Import\<rparr>"

definition exampleQueued :: DomainRecord where
  "exampleQueued = \<lparr>rid = js ''k2'', domain = js ''b.test'', core = js ''b'',
     status = Queued, rdapStatus = NotChecked, createdAt = 3, checkedAt = None,
     source = Import\<rparr>"

definition examplePending :: DomainRecord where
  "examplePending = \<lparr>rid = js ''k3'', domain = js ''c.test'', core = js ''c'',
     status = Available, rdapStatus = NotChecked, createdAt = 4, checkedAt = Some 5,
     source = Import\<rparr>"

subsection \<open>One pool at a time\<close>

text \<open>
  Worker \<open>w\<close> of the stage holds the id \<open>k\<close>.
\<close>

definition holds :: "Sched \<Rightarrow> Stage \<Rightarrow> nat \<Rightarrow> jsstring \<Rightarrow> bool" where
  "holds s checker w k \<longleftrightarrow>
     w < length (workers s) \<and> wstage (workers s ! w) = checker
     \<and> heldKey (phase (workers s ! w)) = Some k"

text \<open>
  The in-flight set of a stage is the set of the ids that its workers hold, no two
  workers hold the same id, and at most \<open>n\<close> workers of the stage are alive.
\<close>

definition poolOk :: "nat \<Rightarrow> Sched \<Rightarrow> Stage \<Rightarrow> bool" where
  "poolOk n s checker \<longleftrightarrow>
     (\<forall>i j k. holds s checker i k \<and> holds s checker j k \<longrightarrow> i = j)
     \<and> inFlight s checker = {k. \<exists>w. holds s checker w k}
     \<and> length (liveWorkers s checker) \<le> n"

text \<open>
  A run is orderly when \<open>startChecker\<close> is called for a stage only while its guard
  sees the stage running (the call then returns at once) or while no worker launched
  for the stage by an earlier call is still in its loop.
\<close>

fun orderly :: "(jsstring \<Rightarrow> jsstring) \<Rightarrow> Sched \<Rightarrow> Event list \<Rightarrow> bool" where
  "orderly lc s [] = True"
| "orderly lc s (e # es) =
     ((case e of Start checker \<Rightarrow> renderedRunning s checker \<or> liveWorkers s checker = [] | _ \<Rightarrow> True)
      \<and> orderly lc (step lc e s) es)"

text \<open>
  A run that is not orderly. Two records are loaded, both \<open>available\<close> and not yet
  checked, and the RDAP stage starts: workers 0 and 1 claim them and the other
  workers find the queue empty and leave. The history is cleared while both lookups
  are pending, and the RDAP stage is started again: its workers find nothing and
  leave, and the second call of \<open>startChecker\<close> returns. Then the lookup of worker 0
  answers \<open>taken\<close> and the request of worker 1 fails; worker 0 finishes its item and
  starts its next pass.
\<close>

definition restartRun :: "Event list" where
  "restartRun =
     [Hydrate [exampleAvailable, examplePending], Start Rdap] @ map Resume [2 ..< 50]
     @ [Render, Clear, Render, Start Rdap] @ map Resume [50 ..< 100]
     @ [Finish 1, RdapSettle 0 7 (RdapResponse 200), RdapSettle 1 8 RdapFetchFailed,
        Release 0, Resume 0]"

subsection \<open>An item that is settled\<close>

text \<open>The id of a candidate that a worker has claimed and not yet written back.\<close>

fun claimedKey :: "Phase \<Rightarrow> jsstring option" where
  "claimedKey (Claimed c b) = Some (rid c)"
| "claimedKey (Written c b) = None"
| "claimedKey (Returned b) = None"
| "claimedKey Exited = None"

text \<open>
  An event leaves the id \<open>k\<close> to the scheduler: it is no load of stored records,
  and if it is an enqueue, \<open>createId\<close> does not return \<open>k\<close> again.
\<close>

fun quietFor :: "jsstring \<Rightarrow> Event \<Rightarrow> bool" where
  "quietFor k (Hydrate items) = False"
| "quietFor k (Enqueue entries) = (k \<notin> set (map (\<lambda>e. fst (snd e)) entries))"
| "quietFor k _ = True"

text \<open>
  The id \<open>k\<close> is settled with status \<open>st\<close>: no worker has it claimed, it is in no
  membership set and not in flight in the verify stage, and the record stored for
  it, if there is one, has status \<open>st\<close> and RDAP status \<open>not_checked\<close>.
\<close>

definition settledAs :: "DomainStatus \<Rightarrow> jsstring \<Rightarrow> Sched \<Rightarrow> bool" where
  "settledAs st k s \<longleftrightarrow>
     storeOk s
     \<and> list_all (\<lambda>w. claimedKey (phase w) \<noteq> Some k) (workers s)
     \<and> k \<notin> queueSetRef s Dns \<and> k \<notin> queueSetRef s Rdap \<and> k \<notin> inFlight s Rdap
     \<and> (case stored s k of None \<Rightarrow> True
         | Some r \<Rightarrow> status r = st \<and> rdapStatus r = NotChecked)"

section \<open>The single-loop hook (hooks/useDomainChecker, the variant with one checker)\<close>

text \<open>
  This variant of the hook has one checker: the state \<open>isRunning\<close>, the ref
  \<open>stopRequestedRef\<close> and the status line. Its \<open>handleStop\<close> has no guard; the page
  disables the Stop button while \<open>isRunning\<close> is false.
\<close>

record Loop =
  isRunning :: bool
  stopRequestedRef :: bool
  loopMessage :: Message

definition mountLoop :: Loop where
  "mountLoop = \<lparr>isRunning = False, stopRequestedRef = False, loopMessage = MsgIdle\<rparr>"

definition handleStop :: "Loop \<Rightarrow> Loop" where
  "handleStop h = h\<lparr>stopRequestedRef := True, loopMessage := MsgStopFinishing\<rparr>"

section \<open>Properties of the queue\<close>

lemma addToQueue_member: "k \<in> s \<Longrightarrow> addToQueue (q, s) k = (q, s)"
  by (simp add: addToQueue_def)

lemma addToQueue_fresh: "k \<notin> s \<Longrightarrow> addToQueue (q, s) k = (q @ [k], insert k s)"
  by (simp add: addToQueue_def)

lemma addToQueue_count_other:
  "j \<noteq> k \<Longrightarrow> count_list (fst (addToQueue (q, s) j)) k = count_list q k"
  by (simp add: addToQueue_def)

lemma addToQueue_mem_other:
  "j \<noteq> k \<Longrightarrow> k \<in> snd (addToQueue (q, s) j) \<longleftrightarrow> k \<in> s"
  by (simp add: addToQueue_def)

lemma addAll_keeps_entry:
  "k \<in> s \<Longrightarrow> count_list q k = n \<Longrightarrow>
   k \<in> snd (addAll (q, s) ks) \<and> count_list (fst (addAll (q, s) ks)) k = n"
proof (induction ks arbitrary: q s)
  case Nil
  then show ?case by (simp add: addAll_def)
next
  case (Cons j ks)
  obtain q' s' where step: "addToQueue (q, s) j = (q', s')"
    by (cases "addToQueue (q, s) j")
  have "k \<in> s'" "count_list q' k = n"
    using Cons.prems step by (auto simp: addToQueue_def split: if_splits)
  from Cons.IH [OF this] show ?case
    by (simp add: addAll_def step)
qed

lemma addAll_one_entry:
  "k \<in> set ks \<Longrightarrow> count_list q k = (if k \<in> s then 1 else 0) \<Longrightarrow>
   k \<in> snd (addAll (q, s) ks) \<and> count_list (fst (addAll (q, s) ks)) k = 1"
proof (induction ks arbitrary: q s)
  case Nil
  then show ?case by simp
next
  case (Cons j ks)
  obtain q' s' where step: "addToQueue (q, s) j = (q', s')"
    by (cases "addToQueue (q, s) j")
  have unfold: "addAll (q, s) (j # ks) = addAll (q', s') ks"
    by (simp add: addAll_def step)
  show ?case
  proof (cases "k \<in> s'")
    case True
    have "count_list q' k = 1"
      using Cons.prems(2) step True by (auto simp: addToQueue_def split: if_splits)
    from addAll_keeps_entry [OF True this] show ?thesis
      by (simp add: unfold)
  next
    case False
    then have "j \<noteq> k" "k \<notin> s"
      using step by (auto simp: addToQueue_def split: if_splits)
    then have "k \<in> set ks" "count_list q' k = (if k \<in> s' then 1 else 0)"
      using Cons.prems step by (auto simp: addToQueue_def split: if_splits)
    from Cons.IH [OF this] show ?thesis
      by (simp add: unfold)
  qed
qed

text \<open>
  Claim C5. Enqueuing a key any number \<open>N \<ge> 1\<close> of times in a row, on a queue whose
  array holds the key exactly when its membership set does (a new queue, or one the
  key is already waiting in), leaves exactly one entry for the key: the whole run is
  the single \<open>addToQueue\<close>, which changes nothing when the key is in the membership
  set and otherwise appends the key at the tail and adds it to the set.
\<close>

theorem enqueue_dedup:
  assumes "1 \<le> N"
    and "count_list q k = (if k \<in> s then 1 else 0)"
  shows "addAll (q, s) (replicate N k) = (if k \<in> s then (q, s) else (q @ [k], insert k s))
    \<and> count_list (fst (addAll (q, s) (replicate N k))) k = 1
    \<and> k \<in> snd (addAll (q, s) (replicate N k))"
proof -
  obtain M where N: "N = Suc M"
    using assms(1) by (cases N) auto
  have again: "addAll (q', insert k s') (replicate m k) = (q', insert k s')" for q' s' m
    by (induction m) (simp_all add: addAll_def addToQueue_def)
  have first: "addAll (q, s) (replicate N k) = (if k \<in> s then (q, s) else (q @ [k], insert k s))"
  proof (cases "k \<in> s")
    case True
    then have "insert k s = s" by auto
    with again [of q s N] True show ?thesis by simp
  next
    case False
    have "addAll (q, s) (replicate N k) = addAll (q @ [k], insert k s) (replicate M k)"
      using False by (simp add: N addAll_def addToQueue_def)
    with again [of "q @ [k]" s M] False show ?thesis by simp
  qed
  have "k \<in> set (replicate N k)"
    using assms(1) by simp
  from addAll_one_entry [OF this assms(2)] first show ?thesis
    by blast
qed

theorem enqueue_dedup_witness:
  "(1::nat) \<le> 3 \<and> count_list [js ''b''] (js ''a'') = (if js ''a'' \<in> {js ''b''} then 1 else 0)
   \<and> addAll ([js ''b''], {js ''b''}) (replicate 3 (js ''a''))
      = ([js ''b'', js ''a''], {js ''a'', js ''b''})"
  using enqueue_dedup [of 3 "[js ''b'']" "js ''a''" "{js ''b''}"]
  by (simp add: js_def)

section \<open>Properties of the normalisation\<close>

lemma domainChar_not_space: "domainChar c \<Longrightarrow> \<not> isWhiteSpace c"
  unfolding domainChar_def isWhiteSpace_def
  by (auto simp: word_le_nat_alt)

lemma domainChar_not_sep:
  "domainChar c \<Longrightarrow> c \<noteq> 0x2F \<and> c \<noteq> 0x3F \<and> c \<noteq> 0x23 \<and> c \<noteq> 0x3A"
  unfolding domainChar_def by auto

lemma strip_trailing_id: "s \<noteq> [] \<Longrightarrow> \<not> P (last s) \<Longrightarrow> rev (dropWhile P (rev s)) = s"
  by (cases s rule: rev_cases) auto

lemma strip_leading_id: "s \<noteq> [] \<Longrightarrow> \<not> P (hd s) \<Longrightarrow> dropWhile P s = s"
  by (cases s) auto

lemma strip_trailing_last:
  "rev (dropWhile P (rev s)) \<noteq> [] \<Longrightarrow> \<not> P (last (rev (dropWhile P (rev s))))"
  using hd_dropWhile [of P "rev s"] by (simp add: last_rev)

lemma strip_trailing_hd:
  "rev (dropWhile P (rev s)) \<noteq> [] \<Longrightarrow> hd (rev (dropWhile P (rev s))) = hd s"
proof (induction s rule: rev_induct)
  case Nil
  then show ?case by simp
next
  case (snoc x xs)
  show ?case
  proof (cases "P x")
    case True
    with snoc have "hd (rev (dropWhile P (rev xs))) = hd xs" by simp
    moreover have "xs \<noteq> []" using snoc.prems True by auto
    ultimately show ?thesis using True by simp
  next
    case False
    then show ?thesis by simp
  qed
qed

lemma stripDots_ends:
  assumes "stripDots s \<noteq> []"
  shows "hd (stripDots s) \<noteq> 0x2E \<and> last (stripDots s) \<noteq> 0x2E"
proof -
  let ?u = "dropWhile (\<lambda>c. c = 0x2E) s"
  have ne: "?u \<noteq> []"
    using assms by (auto simp: stripDots_def simp del: dropWhile_eq_Nil_conv)
  have "hd (stripDots s) = hd ?u"
    using assms strip_trailing_hd [of "\<lambda>c. c = 0x2E" ?u] by (simp add: stripDots_def)
  moreover have "hd ?u \<noteq> 0x2E"
    using hd_dropWhile [OF ne] by simp
  moreover have "last (stripDots s) \<noteq> 0x2E"
    using assms strip_trailing_last [of "\<lambda>c. c = 0x2E" ?u] by (simp add: stripDots_def)
  ultimately show ?thesis by simp
qed

lemma stripDots_id: "s \<noteq> [] \<Longrightarrow> hd s \<noteq> 0x2E \<Longrightarrow> last s \<noteq> 0x2E \<Longrightarrow> stripDots s = s"
  by (simp add: stripDots_def strip_leading_id strip_trailing_id)

lemma trim_id:
  assumes "s \<noteq> []" "list_all domainChar s"
  shows "trim s = s"
proof -
  have "hd s \<in> set s" "last s \<in> set s" using assms(1) by auto
  then have "\<not> isWhiteSpace (hd s)" "\<not> isWhiteSpace (last s)"
    using assms(2) domainChar_not_space by (auto simp: list_all_iff)
  then show ?thesis
    using assms(1) by (simp add: trim_def strip_leading_id strip_trailing_id)
qed

lemma filter_space_id: "list_all domainChar s \<Longrightarrow> filter (\<lambda>c. \<not> isWhiteSpace c) s = s"
  by (induction s) (auto simp: domainChar_not_space)

lemma stripScheme_id:
  assumes "list_all domainChar s"
  shows "stripScheme s = s"
proof -
  let ?r = "dropWhile isAsciiLetter s"
  have "set ?r \<subseteq> set s" by (simp add: set_dropWhileD subsetI)
  then have all: "\<forall>c\<in>set ?r. c \<noteq> 0x3A"
    using assms domainChar_not_sep by (auto simp: list_all_iff)
  have no_scheme: "take 3 ?r \<noteq> [0x3A, 0x2F, 0x2F]"
  proof (cases ?r)
    case Nil
    then show ?thesis by (simp del: dropWhile_eq_Nil_conv)
  next
    case (Cons a as)
    then have "a \<noteq> 0x3A" using all by auto
    then show ?thesis using Cons by (simp add: take_Cons')
  qed
  show ?thesis
    by (simp only: stripScheme_def Let_def no_scheme simp_thms if_False)
qed

lemma stripSlashes_id:
  assumes "list_all domainChar s"
  shows "stripSlashes s = s"
proof (cases s)
  case Nil
  then show ?thesis by (simp add: stripSlashes_def)
next
  case (Cons a as)
  then have "a \<noteq> 0x2F" using assms domainChar_not_sep by auto
  then show ?thesis using Cons by (simp add: stripSlashes_def take_Cons')
qed

lemma firstSegment_id: "list_all domainChar s \<Longrightarrow> firstSegment s = s"
  unfolding firstSegment_def
  by (rule takeWhile_eq_all_conv [THEN iffD2]) (auto simp: list_all_iff dest: domainChar_not_sep)

lemma normalizeDomain_result:
  assumes "normalizeDomain toLowerCase v = Some d"
  shows "d \<noteq> [] \<and> list_all domainChar d \<and> 0x2E \<in> set d \<and> hd d \<noteq> 0x2E \<and> last d \<noteq> 0x2E"
proof -
  define s5 where "s5 = stripDots (firstSegment (stripSlashes (stripScheme
      (filter (\<lambda>c. \<not> isWhiteSpace c) (toLowerCase (trim v))))))"
  define s6 where "s6 = (if 0x2E \<in> set s5 then s5 else s5 @ js ''.com'')"
  from assms have ne: "s5 \<noteq> []" and ok: "list_all domainChar s6" and d: "d = s6"
    by (auto simp: normalizeDomain_def Let_def s5_def s6_def split: if_splits)
  have ends: "hd s5 \<noteq> 0x2E" "last s5 \<noteq> 0x2E"
    using stripDots_ends [of "firstSegment (stripSlashes (stripScheme
      (filter (\<lambda>c. \<not> isWhiteSpace c) (toLowerCase (trim v)))))"] ne
    by (simp_all add: s5_def)
  have "0x2E \<in> set s6" by (simp add: s6_def js_def)
  moreover have "hd s6 \<noteq> 0x2E" using ends ne by (simp add: s6_def)
  moreover have "last s6 \<noteq> 0x2E" using ends ne by (simp add: s6_def js_def)
  moreover have "s6 \<noteq> []" using ne by (simp add: s6_def)
  ultimately show ?thesis using ok d by simp
qed

lemma normalizeDomain_fixed:
  assumes "toLowerCase d = d"
    and "d \<noteq> []" "list_all domainChar d" "0x2E \<in> set d" "hd d \<noteq> 0x2E" "last d \<noteq> 0x2E"
  shows "normalizeDomain toLowerCase d = Some d"
  using assms
  by (simp add: normalizeDomain_def Let_def trim_id filter_space_id stripScheme_id
      stripSlashes_id firstSegment_id stripDots_id)

lemma asciiLower_fix: "list_all domainChar t \<Longrightarrow> asciiLower t = t"
  unfolding asciiLower_def
  by (induction t) (auto simp: domainChar_def word_le_nat_alt)

lemma normalize_example:
  "normalizeDomain asciiLower (js ''  HTTPS://Www.Example.COM/path?q=1 '')
     = Some (js ''www.example.com'')"
  by (simp add: normalizeDomain_def js_def asciiLower_def trim_def isWhiteSpace_def
      stripScheme_def isAsciiLetter_def stripSlashes_def firstSegment_def stripDots_def
      domainChar_def Let_def)

text \<open>
  Claim C10. Whenever \<open>normalizeDomain\<close> returns a string \<open>d\<close> rather than \<open>null\<close>,
  \<open>d\<close> is a non-empty string over \<open>[a-z0-9.-]\<close> (it matches \<open>/^[a-z0-9.-]+$/\<close>), it
  has a dot, it neither starts nor ends with a dot, and \<open>normalizeDomain\<close> maps \<open>d\<close>
  to itself. The case mapping of the engine is any function that leaves \<open>d\<close>, a string
  of lower-case letters, digits, dots and hyphens, as it is.
\<close>

theorem normalizeDomain_idempotent:
  assumes "normalizeDomain toLowerCase v = Some d"
    and "toLowerCase d = d"
  shows "d \<noteq> [] \<and> list_all domainChar d \<and> 0x2E \<in> set d \<and> hd d \<noteq> 0x2E \<and> last d \<noteq> 0x2E
    \<and> normalizeDomain toLowerCase d = Some d"
  using normalizeDomain_result [OF assms(1)] normalizeDomain_fixed [of toLowerCase d] assms(2)
  by simp

theorem normalizeDomain_idempotent_witness:
  "normalizeDomain asciiLower (js ''  HTTPS://Www.Example.COM/path?q=1 '')
       = Some (js ''www.example.com'')
   \<and> asciiLower (js ''www.example.com'') = js ''www.example.com''
   \<and> list_all domainChar (js ''www.example.com'')
   \<and> normalizeDomain asciiLower (js ''www.example.com'') = Some (js ''www.example.com'')"
proof -
  have chars: "list_all domainChar (js ''www.example.com'')"
    by (simp add: js_def domainChar_def)
  have fixed: "asciiLower (js ''www.example.com'') = js ''www.example.com''"
    by (rule asciiLower_fix [OF chars])
  from normalizeDomain_idempotent [OF normalize_example fixed] normalize_example fixed chars
  show ?thesis by blast
qed

section \<open>Properties of the counters\<close>

lemma fold_tally_fields:
  fixes xs :: "DomainRecord option list"
  defines "g \<equiv> (\<lambda>slot acc. case slot of None \<Rightarrow> acc | Some record \<Rightarrow> tally record acc)"
  shows "queueCount (fold g xs acc) = queueCount acc
            + sum_list (map (slotCount (\<lambda>r. status r = Queued \<or> status r = Checking)) xs)
    \<and> totalAvailable (fold g xs acc) = totalAvailable acc
            + sum_list (map (slotCount (\<lambda>r. status r = Available)) xs)
    \<and> totalTaken (fold g xs acc) = totalTaken acc
            + sum_list (map (slotCount (\<lambda>r. status r = Taken)) xs)
    \<and> totalChecked (fold g xs acc) = totalChecked acc
            + sum_list (map (slotCount (\<lambda>r. status r \<noteq> Queued \<and> status r \<noteq> Checking)) xs)
    \<and> takenOverall (fold g xs acc) = takenOverall acc
            + sum_list (map (slotCount (\<lambda>r. status r = Taken \<or> rdapStatus r = RdapTaken)) xs)
    \<and> totalN (fold g xs acc) = totalN acc"
proof (induction xs arbitrary: acc)
  case Nil
  then show ?case by simp
next
  case (Cons x xs)
  show ?case
  proof (cases x)
    case None
    then show ?thesis using Cons [of acc] by (simp add: g_def slotCount_def)
  next
    case (Some r)
    have "fold g (x # xs) acc = fold g xs (tally r acc)"
      using Some by (simp add: g_def)
    then show ?thesis
      using Cons [of "tally r acc"] Some
      by (simp add: slotCount_def tally_def Let_def)
  qed
qed

lemma recomputeStats_fields:
  "queueCount (recomputeStats xs)
      = sum_list (map (slotCount (\<lambda>r. status r = Queued \<or> status r = Checking)) xs)"
  "totalAvailable (recomputeStats xs) = sum_list (map (slotCount (\<lambda>r. status r = Available)) xs)"
  "totalTaken (recomputeStats xs) = sum_list (map (slotCount (\<lambda>r. status r = Taken)) xs)"
  "totalChecked (recomputeStats xs)
      = sum_list (map (slotCount (\<lambda>r. status r \<noteq> Queued \<and> status r \<noteq> Checking)) xs)"
  "takenOverall (recomputeStats xs)
      = sum_list (map (slotCount (\<lambda>r. status r = Taken \<or> rdapStatus r = RdapTaken)) xs)"
  "totalN (recomputeStats xs) = int (length xs)"
  using fold_tally_fields [of xs zeroStats]
  by (simp_all add: recomputeStats_def zeroStats_def)

lemma applyDelta_fields:
  "queueCount (applyDelta r d st)
      = queueCount st + d * slotCount (\<lambda>r. status r = Queued \<or> status r = Checking) (Some r)"
  "totalAvailable (applyDelta r d st)
      = totalAvailable st + d * slotCount (\<lambda>r. status r = Available) (Some r)"
  "totalTaken (applyDelta r d st) = totalTaken st + d * slotCount (\<lambda>r. status r = Taken) (Some r)"
  "totalChecked (applyDelta r d st)
      = totalChecked st + d * slotCount (\<lambda>r. status r \<noteq> Queued \<and> status r \<noteq> Checking) (Some r)"
  "takenOverall (applyDelta r d st)
      = takenOverall st + d * slotCount (\<lambda>r. status r = Taken \<or> rdapStatus r = RdapTaken) (Some r)"
  "totalN (applyDelta r d st) = totalN st"
  by (simp_all add: applyDelta_def slotCount_def Let_def)

lemma adjustStats_fields:
  "queueCount (adjustStats prev item st) = queueCount st
      - slotCount (\<lambda>r. status r = Queued \<or> status r = Checking) prev
      + slotCount (\<lambda>r. status r = Queued \<or> status r = Checking) (Some item)"
  "totalAvailable (adjustStats prev item st) = totalAvailable st
      - slotCount (\<lambda>r. status r = Available) prev + slotCount (\<lambda>r. status r = Available) (Some item)"
  "totalTaken (adjustStats prev item st) = totalTaken st
      - slotCount (\<lambda>r. status r = Taken) prev + slotCount (\<lambda>r. status r = Taken) (Some item)"
  "totalChecked (adjustStats prev item st) = totalChecked st
      - slotCount (\<lambda>r. status r \<noteq> Queued \<and> status r \<noteq> Checking) prev
      + slotCount (\<lambda>r. status r \<noteq> Queued \<and> status r \<noteq> Checking) (Some item)"
  "takenOverall (adjustStats prev item st) = takenOverall st
      - slotCount (\<lambda>r. status r = Taken \<or> rdapStatus r = RdapTaken) prev
      + slotCount (\<lambda>r. status r = Taken \<or> rdapStatus r = RdapTaken) (Some item)"
  "totalN (adjustStats prev item st) = totalN st"
  by (cases prev; simp add: adjustStats_def applyDelta_fields; simp add: slotCount_def)+

lemma sum_list_slot_update:
  fixes f :: "'a \<Rightarrow> int"
  assumes "i < length xs"
  shows "sum_list (map f (xs[i := y])) = sum_list (map f xs) - f (xs ! i) + f y"
  using assms
proof (induction xs arbitrary: i)
  case Nil
  then show ?case by simp
next
  case (Cons x xs)
  then show ?case by (cases i) simp_all
qed

text \<open>The queue operations leave the store and the counters alone.\<close>

lemma enqueueAt_store [simp]:
  "records (enqueueAt st k s) = records s"
  "index (enqueueAt st k s) = index s"
  "stats (enqueueAt st k s) = stats s"
  by (simp_all add: enqueueAt_def split: prod.splits)

lemma dequeueAt_store [simp]:
  "records (dequeueAt st k s) = records s"
  "index (dequeueAt st k s) = index s"
  "stats (dequeueAt st k s) = stats s"
  by (simp_all add: dequeueAt_def)

lemma upsertOne_records:
  "records (upsertOne item s) =
     (case index s (rid item) of
        Some i \<Rightarrow> arraySet (records s) i item
      | None \<Rightarrow> records s @ [Some item])"
  by (simp add: upsertOne_def Let_def split: option.splits)

lemma upsertOne_index:
  "index (upsertOne item s) =
     (case index s (rid item) of
        Some i \<Rightarrow> index s
      | None \<Rightarrow> (index s)(rid item \<mapsto> length (records s)))"
  by (simp add: upsertOne_def Let_def split: option.splits)

lemma upsertOne_stats:
  "stats (upsertOne item s) =
     adjustStats (stored s (rid item)) item
       (if index s (rid item) = None then (stats s)\<lparr>totalN := totalN (stats s) + 1\<rparr>
        else stats s)"
  by (simp add: upsertOne_def stored_def Let_def split: option.splits)

lemma upsertOne_indexInRange:
  assumes "indexInRange s"
  shows "indexInRange (upsertOne item s)"
proof (cases "index s (rid item)")
  case None
  then show ?thesis
    using assms by (auto simp: indexInRange_def upsertOne_records upsertOne_index less_Suc_eq)
next
  case (Some i)
  then have "i < length (records s)" using assms by (simp add: indexInRange_def)
  then show ?thesis
    using assms Some by (simp add: indexInRange_def upsertOne_records upsertOne_index arraySet_def)
qed

lemma upsertOne_statsOk:
  assumes "indexInRange s" and "stats s = recomputeStats (records s)"
  shows "stats (upsertOne item s) = recomputeStats (records (upsertOne item s))"
proof (cases "index s (rid item)")
  case None
  then have prev: "stored s (rid item) = None" by (simp add: stored_def)
  show ?thesis
    by (rule Stats.equality)
      (simp_all add: upsertOne_stats upsertOne_records None prev adjustStats_fields
        recomputeStats_fields assms(2) slotCount_def)
next
  case (Some i)
  then have i: "i < length (records s)" using assms(1) by (simp add: indexInRange_def)
  then have prev: "stored s (rid item) = records s ! i"
    using Some by (simp add: stored_def arrayGet_def)
  show ?thesis
    by (rule Stats.equality)
      (simp_all add: upsertOne_stats upsertOne_records Some prev adjustStats_fields
        recomputeStats_fields assms(2) arraySet_def i sum_list_slot_update)
qed

lemma upsertRecords_statsOk:
  "indexInRange s \<Longrightarrow> stats s = recomputeStats (records s) \<Longrightarrow>
   indexInRange (upsertRecords updates s)
   \<and> stats (upsertRecords updates s) = recomputeStats (records (upsertRecords updates s))"
proof (induction updates arbitrary: s)
  case Nil
  then show ?case by (simp add: upsertRecords_def)
next
  case (Cons item updates)
  have "indexInRange (upsertOne item s)"
    and "stats (upsertOne item s) = recomputeStats (records (upsertOne item s))"
    using Cons.prems by (simp_all add: upsertOne_indexInRange upsertOne_statsOk)
  from Cons.IH [OF this] show ?case
    by (simp add: upsertRecords_def split: if_splits)
qed

lemma fold_keeps:
  assumes "\<And>x t. g (f x t) = g t"
  shows "g (fold f xs s) = g s"
  by (induction xs arbitrary: s) (simp_all add: assms)

lemma hydrate_records: "records (hydrate items s) = map Some items"
  unfolding hydrate_def Let_def
  by (simp add: fold_keeps [where g = records])

lemma hydrate_index:
  "index (hydrate items s) =
     fold (\<lambda>(item, idx) m. m(rid item \<mapsto> idx)) (zip items [0 ..< length items]) Map.empty"
  unfolding hydrate_def Let_def
  by (simp add: fold_keeps [where g = index])

lemma hydrate_stats: "stats (hydrate items s) = recomputeStats (map Some items)"
  by (simp add: hydrate_def Let_def)

lemma index_fold_range:
  fixes m :: "'k \<rightharpoonup> nat" and f :: "'a \<Rightarrow> 'k"
  assumes "\<And>k i. m k = Some i \<Longrightarrow> i < n" and "\<And>p. p \<in> set ps \<Longrightarrow> snd p < n"
    and "fold (\<lambda>(x, idx) m. m(f x \<mapsto> idx)) ps m k = Some i"
  shows "i < n"
  using assms
proof (induction ps arbitrary: m)
  case Nil
  then show ?case by simp
next
  case (Cons p ps)
  obtain x idx where p: "p = (x, idx)" by (cases p)
  have idx: "idx < n" using Cons.prems(2) [of p] p by simp
  show ?case
  proof (rule Cons.IH [of "m(f x \<mapsto> idx)"])
    fix k' i' assume "(m(f x \<mapsto> idx)) k' = Some i'"
    then show "i' < n" using Cons.prems(1) idx by (cases "k' = f x") simp_all
  next
    fix q assume "q \<in> set ps"
    then show "snd q < n" using Cons.prems(2) by simp
  next
    show "fold (\<lambda>(x, idx) m. m(f x \<mapsto> idx)) ps (m(f x \<mapsto> idx)) k = Some i"
      using Cons.prems(3) p by (simp del: fun_upd_apply)
  qed
qed

lemma hydrate_indexInRange: "indexInRange (hydrate items s)"
  unfolding indexInRange_def
proof (intro allI impI)
  fix k i assume "index (hydrate items s) k = Some i"
  then have run: "fold (\<lambda>(item, idx) m. m(rid item \<mapsto> idx)) (zip items [0 ..< length items])
      Map.empty k = Some i"
    by (simp only: hydrate_index)
  have pos: "\<And>p. p \<in> set (zip items [0 ..< length items]) \<Longrightarrow> snd p < length items"
    by (auto dest: set_zip_rightD)
  have none: "\<And>k i. (Map.empty :: jsstring \<rightharpoonup> nat) k = Some i \<Longrightarrow> i < length items"
    by simp
  have "i < length items"
    by (rule index_fold_range [OF none pos run])
  then show "i < length (records (hydrate items s))"
    by (simp only: hydrate_records length_map)
qed

lemma applyOp_statsOk:
  assumes "indexInRange s" and "stats s = recomputeStats (records s)"
  shows "indexInRange (applyOp lc op s)
    \<and> stats (applyOp lc op s) = recomputeStats (records (applyOp lc op s))"
proof (cases op)
  case (OpHydrate items)
  then show ?thesis
    by (simp add: hydrate_indexInRange hydrate_records hydrate_stats)
next
  case (OpEnqueue entries)
  then show ?thesis
    using upsertRecords_statsOk [OF assms] assms
    by (simp add: enqueueDomains_def Let_def indexInRange_def)
next
  case (OpUpsert updates)
  then show ?thesis using upsertRecords_statsOk [OF assms] by simp
next
  case OpClear
  then show ?thesis
    by (simp add: handleClear_def indexInRange_def recomputeStats_def zeroStats_def)
qed

lemma ops_statsOk:
  "indexInRange s \<Longrightarrow> stats s = recomputeStats (records s) \<Longrightarrow>
   indexInRange (fold (applyOp lc) ops s)
   \<and> stats (fold (applyOp lc) ops s) = recomputeStats (records (fold (applyOp lc) ops s))"
proof (induction ops arbitrary: s)
  case Nil
  then show ?case by simp
next
  case (Cons op ops)
  from applyOp_statsOk [OF Cons.prems, of lc op] Cons.IH [of "applyOp lc op s"]
  show ?case by simp
qed

text \<open>
  Claim C3. After any sequence of loads, enqueues, upserts of any batch and clears,
  from the mounted hook, the counters kept in \<open>statsRef\<close> are the counters that
  \<open>recomputeStats\<close> computes from the array of records. The counters that one upsert
  leaves are computed from the counters before it, the record stored under the same
  id and the new item alone: no other record is read.
\<close>

theorem stats_equal_rescan:
  "stats (fold (applyOp lc) ops mount) = recomputeStats (records (fold (applyOp lc) ops mount))
   \<and> stats (upsertOne item s) =
       adjustStats (stored s (rid item)) item
         (if index s (rid item) = None then (stats s)\<lparr>totalN := totalN (stats s) + 1\<rparr>
          else stats s)"
proof -
  have "indexInRange mount" "stats mount = recomputeStats (records mount)"
    by (simp_all add: mount_def indexInRange_def recomputeStats_def zeroStats_def)
  from ops_statsOk [OF this] upsertOne_stats show ?thesis by blast
qed

section \<open>Properties of the lookups\<close>


lemma runDnsLookup_positive:
  "authoritativePositive reply \<Longrightarrow>
   status (runDnsLookup r now reply rr) = Taken \<and> rdapStatus (runDnsLookup r now reply rr) = NotChecked"
  by (cases reply rule: DnsReply.exhaust)
    (auto simp: runDnsLookup_def authoritativePositive_def Let_def
      split: DnsBody.splits option.splits)

lemma runDnsLookup_failed:
  "status (runDnsLookup r now DnsFetchFailed rr) = Unknown
   \<and> rdapStatus (runDnsLookup r now DnsFetchFailed rr) = NotChecked"
  by (simp add: runDnsLookup_def Let_def)

lemma runDnsLookup_rid [simp]: "rid (runDnsLookup r now reply rr) = rid r"
  by (simp add: runDnsLookup_def Let_def
      split: DnsReply.splits DnsBody.splits option.splits)

lemma runRdapOnly_fields [simp]:
  "rid (runRdapOnly r rr now) = rid r"
  "status (runRdapOnly r rr now) = status r"
  "rdapStatus (runRdapOnly r rr now) = runRdapLookup rr"
  by (simp_all add: runRdapOnly_def)




section \<open>Properties of the store and its queues\<close>

lemma enqueueAt_fields [simp]:
  "stopRequested (enqueueAt st k s) = stopRequested s"
  "inFlight (enqueueAt st k s) = inFlight s"
  "running (enqueueAt st k s) = running s"
  "renderedRunning (enqueueAt st k s) = renderedRunning s"
  "statusMessage (enqueueAt st k s) = statusMessage s"
  "pools (enqueueAt st k s) = pools s"
  "workers (enqueueAt st k s) = workers s"
  by (simp_all add: enqueueAt_def split: prod.splits)

lemma dequeueAt_fields [simp]:
  "stopRequested (dequeueAt st k s) = stopRequested s"
  "inFlight (dequeueAt st k s) = inFlight s"
  "running (dequeueAt st k s) = running s"
  "renderedRunning (dequeueAt st k s) = renderedRunning s"
  "statusMessage (dequeueAt st k s) = statusMessage s"
  "pools (dequeueAt st k s) = pools s"
  "workers (dequeueAt st k s) = workers s"
  "queueRef (dequeueAt st k s) = queueRef s"
  by (simp_all add: dequeueAt_def)

lemma enqueueAt_queueSetRef:
  "queueSetRef (enqueueAt st k s) = (queueSetRef s)(st := insert k (queueSetRef s st))"
  by (auto simp: enqueueAt_def addToQueue_def insert_absorb)

lemma enqueueAt_queueRef:
  "queueRef (enqueueAt st k s) =
     (queueRef s)(st := (if k \<in> queueSetRef s st then queueRef s st else queueRef s st @ [k]))"
  by (auto simp: enqueueAt_def addToQueue_def)

lemma dequeueAt_queueSetRef:
  "queueSetRef (dequeueAt st k s) = (queueSetRef s)(st := queueSetRef s st - {k})"
  by (simp add: dequeueAt_def removeFromQueue_def)

lemma upsertOne_fields [simp]:
  "stopRequested (upsertOne item s) = stopRequested s"
  "inFlight (upsertOne item s) = inFlight s"
  "running (upsertOne item s) = running s"
  "renderedRunning (upsertOne item s) = renderedRunning s"
  "statusMessage (upsertOne item s) = statusMessage s"
  "pools (upsertOne item s) = pools s"
  "workers (upsertOne item s) = workers s"
  by (simp_all add: upsertOne_def Let_def split: option.splits)

lemma upsertRecords_fields [simp]:
  "stopRequested (upsertRecords items s) = stopRequested s"
  "inFlight (upsertRecords items s) = inFlight s"
  "running (upsertRecords items s) = running s"
  "renderedRunning (upsertRecords items s) = renderedRunning s"
  "statusMessage (upsertRecords items s) = statusMessage s"
  "pools (upsertRecords items s) = pools s"
  "workers (upsertRecords items s) = workers s"
  by (simp_all add: upsertRecords_def fold_keeps)

text \<open>What one upsert does to the membership sets and the arrays of the two queues.\<close>

lemma upsertOne_queueSetRef:
  "queueSetRef (upsertOne item s) Dns =
     (if status item = Queued then insert (rid item) (queueSetRef s Dns)
      else if (case stored s (rid item) of None \<Rightarrow> False | Some p \<Rightarrow> status p = Queued)
      then queueSetRef s Dns - {rid item} else queueSetRef s Dns)"
  "queueSetRef (upsertOne item s) Rdap =
     (if isRdapCandidate item then insert (rid item) (queueSetRef s Rdap)
      else if (case stored s (rid item) of None \<Rightarrow> False | Some p \<Rightarrow> isRdapCandidate p)
      then queueSetRef s Rdap - {rid item} else queueSetRef s Rdap)"
  by (auto simp: upsertOne_def stored_def Let_def enqueueAt_queueSetRef dequeueAt_queueSetRef
      isRdapCandidate_def split: option.splits)

lemma upsertOne_queueRef:
  "queueRef (upsertOne item s) Dns =
     (if status item = Queued \<and> rid item \<notin> queueSetRef s Dns
      then queueRef s Dns @ [rid item] else queueRef s Dns)"
  "queueRef (upsertOne item s) Rdap =
     (if isRdapCandidate item \<and> rid item \<notin> queueSetRef s Rdap
      then queueRef s Rdap @ [rid item] else queueRef s Rdap)"
  by (auto simp: upsertOne_def stored_def Let_def enqueueAt_queueRef enqueueAt_queueSetRef
      dequeueAt_queueSetRef isRdapCandidate_def split: option.splits)

lemma upsertOne_queueRef_idle:
  "status item \<noteq> Queued \<Longrightarrow> \<not> isRdapCandidate item \<Longrightarrow> queueRef (upsertOne item s) = queueRef s"
  by (simp add: upsertOne_def Let_def split: option.splits)


section \<open>Properties of the worker steps\<close>

lemma setPhase_fields [simp]:
  "records (setPhase w ph s) = records s"
  "index (setPhase w ph s) = index s"
  "stats (setPhase w ph s) = stats s"
  "stopRequested (setPhase w ph s) = stopRequested s"
  "inFlight (setPhase w ph s) = inFlight s"
  "queueRef (setPhase w ph s) = queueRef s"
  "queueSetRef (setPhase w ph s) = queueSetRef s"
  "running (setPhase w ph s) = running s"
  "renderedRunning (setPhase w ph s) = renderedRunning s"
  "statusMessage (setPhase w ph s) = statusMessage s"
  "pools (setPhase w ph s) = pools s"
  "workers (setPhase w ph s) = (workers s)[w := (workers s ! w)\<lparr>phase := ph\<rparr>]"
  by (simp_all add: setPhase_def)

lemma popCandidate_fields [simp]:
  "records (snd (popCandidate st s)) = records s"
  "index (snd (popCandidate st s)) = index s"
  "stats (snd (popCandidate st s)) = stats s"
  "stopRequested (snd (popCandidate st s)) = stopRequested s"
  "inFlight (snd (popCandidate st s)) = inFlight s"
  "running (snd (popCandidate st s)) = running s"
  "renderedRunning (snd (popCandidate st s)) = renderedRunning s"
  "statusMessage (snd (popCandidate st s)) = statusMessage s"
  "pools (snd (popCandidate st s)) = pools s"
  "workers (snd (popCandidate st s)) = workers s"
  by (simp_all add: popCandidate_def split: prod.splits)

lemma loopHead_fields [simp]:
  "stopRequested (loopHead w s) = stopRequested s"
  "running (loopHead w s) = running s"
  "renderedRunning (loopHead w s) = renderedRunning s"
  "statusMessage (loopHead w s) = statusMessage s"
  "pools (loopHead w s) = pools s"
  "length (workers (loopHead w s)) = length (workers s)"
proof -
  obtain c t where pop: "popCandidate (wstage (workers s ! w)) s = (c, t)"
    by (cases "popCandidate (wstage (workers s ! w)) s")
  have t: "stopRequested t = stopRequested s" "running t = running s"
    "renderedRunning t = renderedRunning s"
    "statusMessage t = statusMessage s" "pools t = pools s" "workers t = workers s"
    using popCandidate_fields [of "wstage (workers s ! w)" s] by (simp_all add: pop)
  show "stopRequested (loopHead w s) = stopRequested s"
    "running (loopHead w s) = running s"
    "renderedRunning (loopHead w s) = renderedRunning s"
    "statusMessage (loopHead w s) = statusMessage s"
    "pools (loopHead w s) = pools s"
    "length (workers (loopHead w s)) = length (workers s)"
    by (simp_all add: loopHead_def Let_def pop t split: option.splits)
qed

lemma settle_fields [simp]:
  "stopRequested (dnsSettle w now reply rr s) = stopRequested s"
  "running (dnsSettle w now reply rr s) = running s"
  "renderedRunning (dnsSettle w now reply rr s) = renderedRunning s"
  "statusMessage (dnsSettle w now reply rr s) = statusMessage s"
  "pools (dnsSettle w now reply rr s) = pools s"
  "inFlight (dnsSettle w now reply rr s) = inFlight s"
  "stopRequested (rdapSettle w now rr s) = stopRequested s"
  "running (rdapSettle w now rr s) = running s"
  "renderedRunning (rdapSettle w now rr s) = renderedRunning s"
  "statusMessage (rdapSettle w now rr s) = statusMessage s"
  "pools (rdapSettle w now rr s) = pools s"
  "inFlight (rdapSettle w now rr s) = inFlight s"
  by (simp_all add: dnsSettle_def rdapSettle_def Let_def split: Phase.splits)

lemma release_fields [simp]:
  "stopRequested (release w s) = stopRequested s"
  "running (release w s) = running s"
  "renderedRunning (release w s) = renderedRunning s"
  "records (release w s) = records s"
  "index (release w s) = index s"
  "stats (release w s) = stats s"
  "queueRef (release w s) = queueRef s"
  "queueSetRef (release w s) = queueSetRef s"
  by (simp_all add: release_def Let_def split: Phase.splits)

lemma resume_fields [simp]:
  "stopRequested (resume w s) = stopRequested s"
  "running (resume w s) = running s"
  "renderedRunning (resume w s) = renderedRunning s"
  "statusMessage (resume w s) = statusMessage s"
  "pools (resume w s) = pools s"
  by (simp_all add: resume_def Let_def split: Phase.splits)

lemma hydrate_fields [simp]:
  "stopRequested (hydrate items s) = stopRequested s"
  "running (hydrate items s) = running s"
  "renderedRunning (hydrate items s) = renderedRunning s"
  "statusMessage (hydrate items s) = statusMessage s"
  "pools (hydrate items s) = pools s"
  "workers (hydrate items s) = workers s"
  "inFlight (hydrate items s) = inFlight s"
  unfolding hydrate_def Let_def
  by (simp_all add: fold_keeps [where g = stopRequested] fold_keeps [where g = running]
      fold_keeps [where g = renderedRunning]
      fold_keeps [where g = statusMessage] fold_keeps [where g = pools]
      fold_keeps [where g = workers] fold_keeps [where g = inFlight])

lemma enqueueDomains_fields [simp]:
  "stopRequested (enqueueDomains lc entries s) = stopRequested s"
  "running (enqueueDomains lc entries s) = running s"
  "renderedRunning (enqueueDomains lc entries s) = renderedRunning s"
  "pools (enqueueDomains lc entries s) = pools s"
  "workers (enqueueDomains lc entries s) = workers s"
  "inFlight (enqueueDomains lc entries s) = inFlight s"
  by (simp_all add: enqueueDomains_def Let_def)

text \<open>A stage counts as running, in the state or in the last render, only after a start.\<close>

lemma rendered_step:
  "running (step lc e s) c \<or> renderedRunning (step lc e s) c \<Longrightarrow>
   running s c \<or> renderedRunning s c \<or> e = Start c"
proof (cases e)
  case (Start st)
  have keep: "running (fold (\<lambda>_. spawnWorker st p) ns t) = running t"
    "renderedRunning (fold (\<lambda>_. spawnWorker st p) ns t) = renderedRunning t" for p ns t
    by (rule fold_keeps, simp add: spawnWorker_def)+
  assume "running (step lc e s) c \<or> renderedRunning (step lc e s) c"
  then show ?thesis
    using Start by (auto simp: startChecker_def Let_def keep split: if_splits)
next
  case (Finish p)
  assume "running (step lc e s) c \<or> renderedRunning (step lc e s) c"
  then show ?thesis
    using Finish by (auto simp: finishChecker_def Let_def split: if_splits)
qed (auto simp: stopChecker_def handleClear_def split: if_splits)

lemma rendered_run:
  "running (run lc es s) c \<or> renderedRunning (run lc es s) c \<Longrightarrow>
   running s c \<or> renderedRunning s c \<or> Start c \<in> set es"
proof (induction es arbitrary: s)
  case Nil
  then show ?case by (simp add: run_def)
next
  case (Cons e es)
  from Cons.prems
  have "running (run lc es (step lc e s)) c \<or> renderedRunning (run lc es (step lc e s)) c"
    by (simp add: run_def)
  from Cons.IH [OF this] rendered_step [of lc e s c] show ?case by auto
qed

lemma stage_fun_eq: "f Dns = g Dns \<Longrightarrow> f Rdap = g Rdap \<Longrightarrow> f = (g :: Stage \<Rightarrow> 'a)"
proof
  fix st assume "f Dns = g Dns" "f Rdap = g Rdap"
  then show "f st = g st" by (cases st) simp_all
qed

lemma stored_ctl [simp]:
  "stored (s\<lparr>stopRequested := a, statusMessage := b\<rparr>) k = stored s k"
  by (simp add: stored_def split: option.splits)

text \<open>An upsert reads and writes the store and the queues, and nothing else.\<close>

lemma upsertOne_ctl:
  "upsertOne item (s\<lparr>stopRequested := a, statusMessage := b\<rparr>)
     = (upsertOne item s)\<lparr>stopRequested := a, statusMessage := b\<rparr>"
proof (rule Sched.equality)
  show "queueRef (upsertOne item (s\<lparr>stopRequested := a, statusMessage := b\<rparr>))
      = queueRef ((upsertOne item s)\<lparr>stopRequested := a, statusMessage := b\<rparr>)"
    by (rule stage_fun_eq) (simp_all add: upsertOne_queueRef)
  show "queueSetRef (upsertOne item (s\<lparr>stopRequested := a, statusMessage := b\<rparr>))
      = queueSetRef ((upsertOne item s)\<lparr>stopRequested := a, statusMessage := b\<rparr>)"
    by (rule stage_fun_eq) (simp_all add: upsertOne_queueSetRef)
qed (simp_all add: upsertOne_records upsertOne_index upsertOne_stats split: option.splits)

lemma upsertRecords_ctl:
  "upsertRecords items (s\<lparr>stopRequested := a, statusMessage := b\<rparr>)
     = (upsertRecords items s)\<lparr>stopRequested := a, statusMessage := b\<rparr>"
proof -
  have "fold upsertOne items (s\<lparr>stopRequested := a, statusMessage := b\<rparr>)
     = (fold upsertOne items s)\<lparr>stopRequested := a, statusMessage := b\<rparr>"
    by (induction items arbitrary: s) (simp_all add: upsertOne_ctl)
  then show ?thesis by (simp add: upsertRecords_def)
qed

lemma stopChecker_settle:
  "dnsSettle w now reply rr (stopChecker c s) = stopChecker c (dnsSettle w now reply rr s)"
  "rdapSettle w now rr (stopChecker c s) = stopChecker c (rdapSettle w now rr s)"
  by (simp_all add: stopChecker_def dnsSettle_def rdapSettle_def Let_def setPhase_def
      upsertRecords_ctl split: Phase.splits)

text \<open>
  Claim C9, as amended. \<open>stopChecker\<close> for a stage changes nothing when the value of
  \<open>running\<close> for the stage that the last render captured is false; that is so in
  every state the hook reaches without a call of \<open>startChecker\<close> for the stage. A
  second call right after a first changes nothing. When the captured value is true,
  the call sets the stop flag of the stage and the status line, and nothing else. It
  cancels no lookup: the result of a lookup that comes back after the call is written
  exactly as without the call, the worker then releases its id, and a worker that
  resumes its loop under the flag leaves the loop without claiming an item.
  \<open>handleStop\<close> of the single-loop hook has no guard: every call sets the stop flag
  and the status line, and a second call changes nothing more. Neither function has
  a failing branch.
\<close>

theorem stop_idempotent:
  "(\<not> renderedRunning s c \<longrightarrow> stopChecker c s = s)
   \<and> (Start c \<notin> set es \<longrightarrow> stopChecker c (run lc es mount) = run lc es mount)
   \<and> stopChecker c (stopChecker c s) = stopChecker c s
   \<and> (renderedRunning s c \<longrightarrow>
        stopChecker c s = s\<lparr>stopRequested := (stopRequested s)(c := True),
                              statusMessage := MsgStopRequested c\<rparr>)
   \<and> dnsSettle w now reply rr (stopChecker c s) = stopChecker c (dnsSettle w now reply rr s)
   \<and> rdapSettle w now rr (stopChecker c s) = stopChecker c (rdapSettle w now rr s)
   \<and> (w < length (workers s) \<and> phase (workers s ! w) = Written cand b \<longrightarrow>
        phase (workers (release w (stopChecker c s)) ! w) = Returned b
        \<and> inFlight (release w (stopChecker c s)) =
            (inFlight s)(wstage (workers s ! w) := inFlight s (wstage (workers s ! w)) - {rid cand}))
   \<and> (renderedRunning s c \<and> w < length (workers s) \<and> wstage (workers s ! w) = c
        \<and> phase (workers s ! w) = Returned b \<longrightarrow>
        resume w (stopChecker c s) = setPhase w Exited (stopChecker c s))
   \<and> handleStop h = h\<lparr>stopRequestedRef := True, loopMessage := MsgStopFinishing\<rparr>
   \<and> handleStop (handleStop h) = handleStop h"
proof -
  have never: "stopChecker c (run lc es mount) = run lc es mount" if "Start c \<notin> set es"
  proof -
    have "\<not> renderedRunning (run lc es mount) c"
      using rendered_run [of lc es mount c] that by (auto simp: mount_def)
    then show ?thesis by (simp add: stopChecker_def)
  qed
  have twice: "stopChecker c (stopChecker c s) = stopChecker c s"
    by (simp add: stopChecker_def)
  have rel: "phase (workers (release w (stopChecker c s)) ! w) = Returned b
      \<and> inFlight (release w (stopChecker c s)) =
          (inFlight s)(wstage (workers s ! w) := inFlight s (wstage (workers s ! w)) - {rid cand})"
    if "w < length (workers s)" "phase (workers s ! w) = Written cand b"
    using that by (simp add: release_def stopChecker_def Let_def)
  have res: "resume w (stopChecker c s) = setPhase w Exited (stopChecker c s)"
    if "renderedRunning s c" "w < length (workers s)" "wstage (workers s ! w) = c"
      "phase (workers s ! w) = Returned b"
    using that by (simp add: resume_def stopChecker_def Let_def)
  have loop: "handleStop h = h\<lparr>stopRequestedRef := True, loopMessage := MsgStopFinishing\<rparr>"
    "handleStop (handleStop h) = handleStop h"
    by (simp_all add: handleStop_def)
  from never twice rel res loop stopChecker_settle
  show ?thesis by (simp add: stopChecker_def)
qed

theorem stop_idempotent_witness:
  "\<not> renderedRunning mount Dns \<and> stopChecker Dns mount = mount
   \<and> renderedRunning (run asciiLower [Hydrate [exampleAvailable], Start Rdap, Render] mount) Rdap
   \<and> phase (workers (run asciiLower [Hydrate [exampleAvailable], Start Rdap, Render] mount) ! 1)
       = Returned 0
   \<and> resume 1 (run asciiLower [Hydrate [exampleAvailable], Start Rdap, Render, Stop Rdap] mount)
       = setPhase 1 Exited
           (run asciiLower [Hydrate [exampleAvailable], Start Rdap, Render, Stop Rdap] mount)
   \<and> map_option rdapStatus (stored (run asciiLower [Hydrate [exampleAvailable], Start Rdap,
         Render, Stop Rdap, RdapSettle 0 7 (RdapResponse 200), Release 0, Resume 0] mount) (js ''k1''))
       = Some RdapTaken
   \<and> phase (workers (run asciiLower [Hydrate [exampleAvailable], Start Rdap,
         Render, Stop Rdap, RdapSettle 0 7 (RdapResponse 200), Release 0, Resume 0] mount) ! 0) = Exited"
proof -
  let ?s = "run asciiLower [Hydrate [exampleAvailable], Start Rdap, Render] mount"
  have idle: "\<not> renderedRunning mount Dns" by (simp add: mount_def)
  have facts: "renderedRunning ?s Rdap" "1 < length (workers ?s)" "wstage (workers ?s ! 1) = Rdap"
    "phase (workers ?s ! 1) = Returned 0"
    unfolding exampleAvailable_def by code_simp+
  have settled: "map_option rdapStatus (stored (run asciiLower [Hydrate [exampleAvailable], Start Rdap,
         Render, Stop Rdap, RdapSettle 0 7 (RdapResponse 200), Release 0, Resume 0] mount) (js ''k1''))
       = Some RdapTaken
     \<and> phase (workers (run asciiLower [Hydrate [exampleAvailable], Start Rdap,
         Render, Stop Rdap, RdapSettle 0 7 (RdapResponse 200), Release 0, Resume 0] mount) ! 0) = Exited"
    unfolding exampleAvailable_def by code_simp
  have unfold: "run asciiLower [Hydrate [exampleAvailable], Start Rdap, Render, Stop Rdap] mount
      = stopChecker Rdap ?s"
    by (simp add: run_def)
  from stop_idempotent [where s = mount and c = Dns] idle
  have first: "stopChecker Dns mount = mount" by blast
  from stop_idempotent [where s = ?s and c = Rdap and w = 1 and b = 0] facts
  have "resume 1 (stopChecker Rdap ?s) = setPhase 1 Exited (stopChecker Rdap ?s)" by blast
  with idle first facts settled unfold show ?thesis by simp
qed

text \<open>
  The claim as stated fails for \<open>handleStop\<close>: called on the hook as it is mounted,
  before any start, it sets the stop flag and replaces the status line. And
  \<open>stopChecker\<close> called after \<open>startChecker\<close> with no render in between finds the
  captured value still false and leaves the stop flag of the running stage unset.
\<close>

theorem stop_idempotent_counterexample:
  "handleStop mountLoop \<noteq> mountLoop
   \<and> \<not> isRunning mountLoop \<and> \<not> stopRequestedRef mountLoop
   \<and> stopRequestedRef (handleStop mountLoop)
   \<and> loopMessage mountLoop = MsgIdle
   \<and> loopMessage (handleStop mountLoop) = MsgStopFinishing
   \<and> running (run asciiLower [Start Rdap, Stop Rdap] mount) Rdap
   \<and> \<not> stopRequested (run asciiLower [Start Rdap, Stop Rdap] mount) Rdap"
proof -
  have loop: "handleStop mountLoop \<noteq> mountLoop
      \<and> \<not> isRunning mountLoop \<and> \<not> stopRequestedRef mountLoop
      \<and> stopRequestedRef (handleStop mountLoop)
      \<and> loopMessage mountLoop = MsgIdle
      \<and> loopMessage (handleStop mountLoop) = MsgStopFinishing"
    by (simp add: handleStop_def mountLoop_def)
  have stale: "running (run asciiLower [Start Rdap, Stop Rdap] mount) Rdap
      \<and> \<not> stopRequested (run asciiLower [Start Rdap, Stop Rdap] mount) Rdap"
    by code_simp
  from loop stale show ?thesis by simp
qed

section \<open>Well-formed stores\<close>

lemma storeOkD:
  "storeOk s \<Longrightarrow> index s k = Some i \<Longrightarrow>
   i < length (records s) \<and> (\<exists>r. records s ! i = Some r \<and> rid r = k)"
  unfolding storeOk_def by blast

lemma storeOk_stored:
  assumes "storeOk s" and "stored s k = Some r"
  shows "rid r = k"
proof -
  from assms(2) obtain i where i: "index s k = Some i" and g: "arrayGet (records s) i = Some r"
    by (auto simp: stored_def split: option.splits)
  from storeOkD [OF assms(1) i] g show ?thesis
    by (auto simp: arrayGet_def)
qed

lemma upsertOne_storeOk:
  assumes "storeOk s"
  shows "storeOk (upsertOne item s)"
proof (cases "index s (rid item)")
  case None
  show ?thesis
    unfolding storeOk_def
  proof (intro allI impI)
    fix k i assume "index (upsertOne item s) k = Some i"
    then have ki: "(k = rid item \<and> i = length (records s)) \<or> (k \<noteq> rid item \<and> index s k = Some i)"
      by (cases "k = rid item") (simp_all add: upsertOne_index None)
    then show "i < length (records (upsertOne item s))
        \<and> (\<exists>r. records (upsertOne item s) ! i = Some r \<and> rid r = k)"
    proof
      assume "k = rid item \<and> i = length (records s)"
      then show ?thesis by (simp add: upsertOne_records None)
    next
      assume old: "k \<noteq> rid item \<and> index s k = Some i"
      then have "i < length (records s) \<and> (\<exists>r. records s ! i = Some r \<and> rid r = k)"
        using storeOkD [OF assms] by blast
      then show ?thesis by (simp add: upsertOne_records None nth_append)
    qed
  qed
next
  case (Some i0)
  from storeOkD [OF assms Some]
  have i0: "i0 < length (records s)" and r0: "\<exists>r. records s ! i0 = Some r \<and> rid r = rid item"
    by simp_all
  show ?thesis
    unfolding storeOk_def
  proof (intro allI impI)
    fix k i assume "index (upsertOne item s) k = Some i"
    then have idx: "index s k = Some i" by (simp add: upsertOne_index Some)
    from storeOkD [OF assms idx]
    have old: "i < length (records s)" "\<exists>r. records s ! i = Some r \<and> rid r = k"
      by simp_all
    show "i < length (records (upsertOne item s))
        \<and> (\<exists>r. records (upsertOne item s) ! i = Some r \<and> rid r = k)"
    proof (cases "i = i0")
      case True
      then have "k = rid item" using old(2) r0 by auto
      then show ?thesis using True i0 by (simp add: upsertOne_records Some arraySet_def)
    next
      case False
      then show ?thesis using old i0 by (simp add: upsertOne_records Some arraySet_def)
    qed
  qed
qed

lemma upsertRecords_storeOk: "storeOk s \<Longrightarrow> storeOk (upsertRecords items s)"
proof -
  have "storeOk t \<Longrightarrow> storeOk (fold upsertOne items t)" for t
    by (induction items arbitrary: t) (simp_all add: upsertOne_storeOk)
  then show "storeOk s \<Longrightarrow> storeOk (upsertRecords items s)"
    by (simp add: upsertRecords_def)
qed

lemma upsertOne_stored:
  assumes ok: "storeOk s"
  shows "stored (upsertOne item s) k = (if k = rid item then Some item else stored s k)"
proof (cases "index s (rid item)")
  case None
  show ?thesis
  proof (cases "k = rid item")
    case True
    then show ?thesis by (simp add: stored_def upsertOne_index upsertOne_records None arrayGet_def)
  next
    case False
    show ?thesis
    proof (cases "index s k")
      case None
      then show ?thesis
        using False \<open>index s (rid item) = None\<close> by (simp add: stored_def upsertOne_index)
    next
      case (Some i)
      from storeOkD [OF ok Some] have "i < length (records s)" by simp
      then show ?thesis
        using False Some \<open>index s (rid item) = None\<close>
        by (simp add: stored_def upsertOne_index upsertOne_records arrayGet_def nth_append)
    qed
  qed
next
  case (Some i0)
  from storeOkD [OF ok Some]
  have i0: "i0 < length (records s)" and r0: "\<exists>r. records s ! i0 = Some r \<and> rid r = rid item"
    by simp_all
  show ?thesis
  proof (cases "k = rid item")
    case True
    then show ?thesis
      using i0 by (simp add: stored_def upsertOne_index upsertOne_records Some arrayGet_def arraySet_def)
  next
    case False
    show ?thesis
    proof (cases "index s k")
      case None
      then show ?thesis using False by (simp add: stored_def upsertOne_index Some)
    next
      case (Some i)
      from storeOkD [OF ok Some]
      have "i < length (records s)" "\<exists>r. records s ! i = Some r \<and> rid r = k"
        by simp_all
      then have "i \<noteq> i0" using r0 False by auto
      then show ?thesis
        using False i0 Some \<open>index s (rid item) = Some i0\<close>
        by (simp add: stored_def upsertOne_index upsertOne_records arrayGet_def arraySet_def)
    qed
  qed
qed

lemma index_fold_ids:
  fixes m :: "jsstring \<rightharpoonup> nat"
  assumes "\<And>k i. m k = Some i \<Longrightarrow> i < length items \<and> rid (items ! i) = k"
    and "\<And>p. p \<in> set ps \<Longrightarrow> snd p < length items \<and> fst p = items ! snd p"
    and "fold (\<lambda>(item, idx) m. m(rid item \<mapsto> idx)) ps m k = Some i"
  shows "i < length items \<and> rid (items ! i) = k"
  using assms
proof (induction ps arbitrary: m)
  case Nil
  then show ?case by simp
next
  case (Cons p ps)
  obtain item idx where p: "p = (item, idx)" by (cases p)
  have here: "idx < length items \<and> item = items ! idx"
    using Cons.prems(2) [of p] p by simp
  show ?case
  proof (rule Cons.IH [of "m(rid item \<mapsto> idx)"])
    fix k' i' assume a: "(m(rid item \<mapsto> idx)) k' = Some i'"
    show "i' < length items \<and> rid (items ! i') = k'"
    proof (cases "k' = rid item")
      case True
      then have "i' = idx" using a by simp
      then show ?thesis using here True by simp
    next
      case False
      then have "m k' = Some i'" using a by simp
      then show ?thesis by (rule Cons.prems(1))
    qed
  next
    fix q assume "q \<in> set ps"
    then show "snd q < length items \<and> fst q = items ! snd q"
      using Cons.prems(2) [of q] by simp
  next
    show "fold (\<lambda>(item, idx) m. m(rid item \<mapsto> idx)) ps (m(rid item \<mapsto> idx)) k = Some i"
      using Cons.prems(3) p by (simp del: fun_upd_apply)
  qed
qed

lemma hydrate_storeOk: "storeOk (hydrate items s)"
  unfolding storeOk_def
proof (intro allI impI)
  fix k i assume "index (hydrate items s) k = Some i"
  then have run: "fold (\<lambda>(item, idx) m. m(rid item \<mapsto> idx)) (zip items [0 ..< length items])
      Map.empty k = Some i"
    by (simp only: hydrate_index)
  have pos: "\<And>p. p \<in> set (zip items [0 ..< length items]) \<Longrightarrow>
      snd p < length items \<and> fst p = items ! snd p"
    by (auto simp: set_zip)
  have none: "\<And>k i. (Map.empty :: jsstring \<rightharpoonup> nat) k = Some i \<Longrightarrow>
      i < length items \<and> rid (items ! i) = k"
    by simp
  have "i < length items \<and> rid (items ! i) = k"
    by (rule index_fold_ids [OF none pos run])
  then show "i < length (records (hydrate items s))
      \<and> (\<exists>r. records (hydrate items s) ! i = Some r \<and> rid r = k)"
    by (simp add: hydrate_records)
qed

lemma handleClear_storeOk: "storeOk (handleClear s)"
  by (simp add: storeOk_def handleClear_def)

lemma storeOk_message [simp]: "storeOk (s\<lparr>statusMessage := m\<rparr>) = storeOk s"
  by (simp add: storeOk_def)

lemma enqueueDomains_storeOk: "storeOk s \<Longrightarrow> storeOk (enqueueDomains lc entries s)"
  by (simp add: enqueueDomains_def Let_def upsertRecords_storeOk)

section \<open>The dequeue\<close>

lemma popLoop_found:
  "popLoop q m fl idx = (q', m', Some (k, i)) \<Longrightarrow>
   k \<in> m \<and> k \<notin> fl \<and> idx k = Some i \<and> k \<notin> m' \<and> k \<in> set q"
  by (induction q m fl idx rule: popLoop.induct) (auto split: if_splits option.splits)

lemma popLoop_subset: "popLoop q m fl idx = (q', m', found) \<Longrightarrow> m' \<subseteq> m \<and> set q' \<subseteq> set q"
  by (induction q m fl idx rule: popLoop.induct) (auto split: if_splits option.splits)

lemma popCandidate_some:
  assumes "storeOk s" and "popCandidate st s = (Some c, s')"
  shows "rid c \<in> queueSetRef s st \<and> rid c \<notin> inFlight s st \<and> rid c \<notin> queueSetRef s' st
    \<and> stored s (rid c) = Some c \<and> rid c \<in> set (queueRef s st)"
proof -
  obtain q m found where pl:
    "popLoop (queueRef s st) (queueSetRef s st) (inFlight s st) (index s) = (q, m, found)"
    by (cases "popLoop (queueRef s st) (queueSetRef s st) (inFlight s st) (index s)") auto
  from assms(2) pl obtain k i where f: "found = Some (k, i)" and c: "arrayGet (records s) i = Some c"
    and s': "s' = s\<lparr>queueRef := (queueRef s)(st := q), queueSetRef := (queueSetRef s)(st := m)\<rparr>"
    by (auto simp: popCandidate_def split: option.splits)
  from popLoop_found [OF pl [unfolded f]]
  have k: "k \<in> queueSetRef s st" "k \<notin> inFlight s st" "index s k = Some i" "k \<notin> m"
    "k \<in> set (queueRef s st)" by simp_all
  have "rid c = k"
    using storeOkD [OF assms(1) k(3)] c by (auto simp: arrayGet_def)
  then show ?thesis
    using k c s' by (simp add: stored_def)
qed

lemma popCandidate_queues:
  "queueSetRef (snd (popCandidate st s)) st \<subseteq> queueSetRef s st"
  "st' \<noteq> st \<Longrightarrow> queueSetRef (snd (popCandidate st s)) st' = queueSetRef s st'"
  "st' \<noteq> st \<Longrightarrow> queueRef (snd (popCandidate st s)) st' = queueRef s st'"
proof -
  obtain q m found where pl:
    "popLoop (queueRef s st) (queueSetRef s st) (inFlight s st) (index s) = (q, m, found)"
    by (cases "popLoop (queueRef s st) (queueSetRef s st) (inFlight s st) (index s)") auto
  show "queueSetRef (snd (popCandidate st s)) st \<subseteq> queueSetRef s st"
    using popLoop_subset [OF pl] by (simp add: popCandidate_def pl)
  show "st' \<noteq> st \<Longrightarrow> queueSetRef (snd (popCandidate st s)) st' = queueSetRef s st'"
    by (simp add: popCandidate_def pl)
  show "st' \<noteq> st \<Longrightarrow> queueRef (snd (popCandidate st s)) st' = queueRef s st'"
    by (simp add: popCandidate_def pl)
qed

lemma popCandidate_storeOk: "storeOk s \<Longrightarrow> storeOk (snd (popCandidate st s))"
  by (simp add: storeOk_def)

section \<open>Workers and the in-flight sets\<close>

lemma holds_update:
  assumes "workers s' = (workers s)[w := (workers s ! w)\<lparr>phase := ph\<rparr>]"
  shows "holds s' st i k \<longleftrightarrow>
    (if i = w then w < length (workers s) \<and> wstage (workers s ! w) = st \<and> heldKey ph = Some k
     else holds s st i k)"
  by (auto simp: holds_def assms)

lemma live_update_le:
  assumes "workers s' = (workers s)[w := (workers s ! w)\<lparr>phase := ph\<rparr>]"
    and "w < length (workers s)"
    and "ph = Exited \<or> phase (workers s ! w) \<noteq> Exited"
  shows "length (liveWorkers s' st) \<le> length (liveWorkers s st)"
proof -
  have gen: "length (filter P (xs[i := y])) \<le> length (filter P xs)"
    if "i < length xs" "P y \<Longrightarrow> P (xs ! i)" for P :: "Worker \<Rightarrow> bool" and xs i y
    using that
  proof (induction xs arbitrary: i)
    case Nil
    then show ?case by simp
  next
    case (Cons x xs)
    then show ?case by (cases i) auto
  qed
  show ?thesis
    unfolding liveWorkers_def assms(1)
    by (rule gen) (use assms(2,3) in auto)
qed

lemma poolOk_same:
  assumes "poolOk n s st"
    and "workers s' = (workers s)[w := (workers s ! w)\<lparr>phase := ph\<rparr>]"
    and "w < length (workers s)"
    and "heldKey ph = heldKey (phase (workers s ! w))"
    and "inFlight s' st = inFlight s st"
    and "ph = Exited \<or> phase (workers s ! w) \<noteq> Exited"
  shows "poolOk n s' st"
proof -
  have same: "holds s' st i k \<longleftrightarrow> holds s st i k" for i k
  proof (cases "i = w")
    case True
    have "holds s' st w k \<longleftrightarrow> w < length (workers s) \<and> wstage (workers s ! w) = st
        \<and> heldKey ph = Some k"
      by (simp add: holds_update [OF assms(2)])
    also have "\<dots> \<longleftrightarrow> holds s st w k"
      by (simp add: holds_def assms(4))
    finally show ?thesis using True by simp
  next
    case False
    then show ?thesis by (simp add: holds_update [OF assms(2)])
  qed
  have "length (liveWorkers s' st) \<le> n"
    using live_update_le [OF assms(2,3,6), of st] assms(1) by (simp add: poolOk_def)
  then show ?thesis
    using assms(1,5) by (simp add: poolOk_def same)
qed

lemma poolOk_claim:
  assumes "poolOk n s st"
    and "workers s' = (workers s)[w := (workers s ! w)\<lparr>phase := Claimed c b\<rparr>]"
    and "w < length (workers s)"
    and "heldKey (phase (workers s ! w)) = None"
    and "phase (workers s ! w) \<noteq> Exited"
    and "rid c \<notin> inFlight s (wstage (workers s ! w))"
    and "inFlight s' = (inFlight s)(wstage (workers s ! w) :=
           insert (rid c) (inFlight s (wstage (workers s ! w))))"
  shows "poolOk n s' st"
proof -
  let ?st0 = "wstage (workers s ! w)"
  have old: "\<not> holds s st w k" for k
    using assms(4) by (simp add: holds_def)
  have new: "holds s' st i k \<longleftrightarrow> (if i = w then ?st0 = st \<and> rid c = k else holds s st i k)" for i k
    using assms(3) by (simp add: holds_update [OF assms(2)])
  have live: "length (liveWorkers s' st) \<le> n"
    using live_update_le [OF assms(2,3), of st] assms(1,5) by (simp add: poolOk_def)
  show ?thesis
  proof (cases "?st0 = st")
    case False
    then have "holds s' st i k \<longleftrightarrow> holds s st i k" for i k
      using new old by (cases "i = w") simp_all
    moreover have "inFlight s' st = inFlight s st"
      using False by (simp add: assms(7))
    ultimately show ?thesis using assms(1) live by (simp add: poolOk_def)
  next
    case True
    have fl: "inFlight s st = {k. \<exists>i. holds s st i k}"
      and inj: "\<And>i j k. holds s st i k \<Longrightarrow> holds s st j k \<Longrightarrow> i = j"
      using assms(1) unfolding poolOk_def by blast+
    have nobody: "\<not> holds s st i (rid c)" for i
      using assms(6) True fl by auto
    have inj': "i = j" if "holds s' st i k" "holds s' st j k" for i j k
    proof (cases "i = w")
      case iw: True
      then have k: "k = rid c" using that(1) new by simp
      show ?thesis
      proof (cases "j = w")
        case True
        then show ?thesis using iw by simp
      next
        case False
        then have "holds s st j (rid c)" using that(2) new k by simp
        then show ?thesis using nobody by simp
      qed
    next
      case iw: False
      then have hi: "holds s st i k" using that(1) new by simp
      show ?thesis
      proof (cases "j = w")
        case True
        then have "k = rid c" using that(2) new by simp
        then show ?thesis using hi nobody by simp
      next
        case False
        then have "holds s st j k" using that(2) new by simp
        then show ?thesis using hi inj by simp
      qed
    qed
    have fl': "inFlight s' st = {k. \<exists>i. holds s' st i k}"
    proof (rule set_eqI)
      fix k
      have "k \<in> inFlight s' st \<longleftrightarrow> k = rid c \<or> (\<exists>i. holds s st i k)"
        using True fl by (auto simp: assms(7))
      also have "\<dots> \<longleftrightarrow> (\<exists>i. holds s' st i k)"
        using new True old by (metis (full_types))
      finally show "k \<in> inFlight s' st \<longleftrightarrow> k \<in> {k. \<exists>i. holds s' st i k}" by simp
    qed
    show ?thesis
      unfolding poolOk_def using inj' fl' live by blast
  qed
qed

lemma poolOk_release:
  assumes "poolOk n s st"
    and "workers s' = (workers s)[w := (workers s ! w)\<lparr>phase := ph\<rparr>]"
    and "w < length (workers s)"
    and "heldKey (phase (workers s ! w)) = Some k0"
    and "heldKey ph = None"
    and "inFlight s' = (inFlight s)(wstage (workers s ! w) :=
           inFlight s (wstage (workers s ! w)) - {k0})"
  shows "poolOk n s' st"
proof -
  let ?st0 = "wstage (workers s ! w)"
  have new: "holds s' st i k \<longleftrightarrow> i \<noteq> w \<and> holds s st i k" for i k
    using assms(3,5) by (simp add: holds_update [OF assms(2)])
  have notEx: "phase (workers s ! w) \<noteq> Exited"
    using assms(4) by auto
  have live: "length (liveWorkers s' st) \<le> n"
    using live_update_le [OF assms(2,3), of st] assms(1) notEx by (simp add: poolOk_def)
  have fl: "inFlight s st = {k. \<exists>i. holds s st i k}"
    and inj: "\<And>i j k. holds s st i k \<Longrightarrow> holds s st j k \<Longrightarrow> i = j"
    using assms(1) unfolding poolOk_def by blast+
  have inj': "i = j" if "holds s' st i k" "holds s' st j k" for i j k
    using that new inj by blast
  show ?thesis
  proof (cases "?st0 = st")
    case False
    then have "\<not> holds s st w k" for k by (simp add: holds_def)
    then have "holds s' st i k \<longleftrightarrow> holds s st i k" for i k
      using new by blast
    moreover have "inFlight s' st = inFlight s st"
      using False by (simp add: assms(6))
    ultimately show ?thesis using assms(1) live by (simp add: poolOk_def)
  next
    case True
    have mine: "holds s st w k0"
      using assms(3,4) True by (simp add: holds_def)
    have fl': "inFlight s' st = {k. \<exists>i. holds s' st i k}"
    proof (rule set_eqI)
      fix k
      have "k \<in> inFlight s' st \<longleftrightarrow> k \<noteq> k0 \<and> (\<exists>i. holds s st i k)"
        using True fl by (auto simp: assms(6))
      also have "\<dots> \<longleftrightarrow> (\<exists>i. i \<noteq> w \<and> holds s st i k)"
      proof
        assume a: "k \<noteq> k0 \<and> (\<exists>i. holds s st i k)"
        then obtain i where i: "holds s st i k" by blast
        have "i \<noteq> w"
        proof
          assume "i = w"
          then have "k = k0" using i assms(4) by (simp add: holds_def)
          then show False using a by simp
        qed
        then show "\<exists>i. i \<noteq> w \<and> holds s st i k" using i by blast
      next
        assume "\<exists>i. i \<noteq> w \<and> holds s st i k"
        then obtain i where i: "i \<noteq> w" "holds s st i k" by blast
        have "k \<noteq> k0"
        proof
          assume "k = k0"
          then have "i = w" using inj [OF i(2)] mine by simp
          then show False using i(1) by simp
        qed
        then show "k \<noteq> k0 \<and> (\<exists>i. holds s st i k)" using i by blast
      qed
      finally show "k \<in> inFlight s' st \<longleftrightarrow> k \<in> {k. \<exists>i. holds s' st i k}"
        using new by simp
    qed
    show ?thesis
      unfolding poolOk_def using inj' fl' live by blast
  qed
qed

lemma storeOk_cong: "records s' = records s \<Longrightarrow> index s' = index s \<Longrightarrow> storeOk s' = storeOk s"
  by (simp add: storeOk_def)

lemma storeOk_setPhase [simp]: "storeOk (setPhase w ph s) = storeOk s"
  by (simp add: storeOk_def)

lemma loopHead_effect:
  assumes "storeOk s"
  shows "storeOk (loopHead w s)
    \<and> (\<exists>ph. workers (loopHead w s) = (workers s)[w := (workers s ! w)\<lparr>phase := ph\<rparr>]
        \<and> ((heldKey ph = None \<and> inFlight (loopHead w s) = inFlight s)
           \<or> (\<exists>c b. ph = Claimed c b \<and> rid c \<notin> inFlight s (wstage (workers s ! w))
                \<and> inFlight (loopHead w s) = (inFlight s)(wstage (workers s ! w) :=
                     insert (rid c) (inFlight s (wstage (workers s ! w)))))))"
proof -
  let ?st = "wstage (workers s ! w)"
  let ?b = "processedCount (pools s ! wpool (workers s ! w))"
  obtain cand s1 where pop: "popCandidate ?st s = (cand, s1)"
    by (cases "popCandidate ?st s")
  have s1: "workers s1 = workers s" "inFlight s1 = inFlight s" "records s1 = records s"
    "index s1 = index s"
    using popCandidate_fields [of ?st s] by (simp_all add: pop)
  have ok1: "storeOk s1"
    using assms storeOk_cong [OF s1(3,4)] by simp
  show ?thesis
  proof (cases "stopRequested s ?st")
    case True
    then have "loopHead w s = setPhase w Exited s"
      by (simp add: loopHead_def Let_def)
    then show ?thesis
      using assms by (auto intro!: exI [of _ Exited])
  next
    case False
    show ?thesis
    proof (cases cand)
      case None
      then have "loopHead w s = setPhase w (Returned ?b) s1"
        using False pop by (simp add: loopHead_def Let_def)
      then show ?thesis
        using ok1 s1 by (auto intro!: exI [of _ "Returned ?b"])
    next
      case (Some c)
      define s2 where "s2 = s1\<lparr>inFlight := (inFlight s1)(?st := insert (rid c) (inFlight s1 ?st))\<rparr>"
      define s3 where "s3 = (if ?st = Dns then upsertRecords [c\<lparr>status := Checking\<rparr>] s2 else s2)"
      have lh: "loopHead w s = setPhase w (Claimed c ?b) s3"
        using False pop Some by (simp add: loopHead_def Let_def s2_def s3_def)
      have ok2: "storeOk s2"
        using ok1 by (simp add: s2_def storeOk_def)
      have ok3: "storeOk s3"
        using ok2 by (simp add: s3_def upsertRecords_storeOk)
      have w3: "workers s3 = workers s" "inFlight s3 = (inFlight s)(?st := insert (rid c) (inFlight s ?st))"
        using s1 by (simp_all add: s3_def s2_def)
      have notin: "rid c \<notin> inFlight s ?st"
        using popCandidate_some [OF assms pop [unfolded Some]] by simp
      have "storeOk (loopHead w s)"
        using ok3 by (simp add: lh)
      moreover have "workers (loopHead w s) = (workers s)[w := (workers s ! w)\<lparr>phase := Claimed c ?b\<rparr>]"
        by (simp add: lh w3)
      moreover have "inFlight (loopHead w s) = (inFlight s)(?st := insert (rid c) (inFlight s ?st))"
        by (simp add: lh w3)
      ultimately show ?thesis
        using notin by blast
    qed
  qed
qed

lemma loopHead_poolOk:
  assumes "storeOk s" and "poolOk n s st" and "w < length (workers s)"
    and "heldKey (phase (workers s ! w)) = None" and "phase (workers s ! w) \<noteq> Exited"
  shows "poolOk n (loopHead w s) st"
proof -
  from loopHead_effect [OF assms(1), of w] obtain ph where
    ws: "workers (loopHead w s) = (workers s)[w := (workers s ! w)\<lparr>phase := ph\<rparr>]"
    and alt: "(heldKey ph = None \<and> inFlight (loopHead w s) = inFlight s)
       \<or> (\<exists>c b. ph = Claimed c b \<and> rid c \<notin> inFlight s (wstage (workers s ! w))
            \<and> inFlight (loopHead w s) = (inFlight s)(wstage (workers s ! w) :=
                 insert (rid c) (inFlight s (wstage (workers s ! w)))))"
    by blast
  from alt show ?thesis
  proof
    assume a: "heldKey ph = None \<and> inFlight (loopHead w s) = inFlight s"
    show ?thesis
      by (rule poolOk_same [OF assms(2) ws assms(3)]) (use a assms(4,5) in simp_all)
  next
    assume "\<exists>c b. ph = Claimed c b \<and> rid c \<notin> inFlight s (wstage (workers s ! w))
            \<and> inFlight (loopHead w s) = (inFlight s)(wstage (workers s ! w) :=
                 insert (rid c) (inFlight s (wstage (workers s ! w))))"
    then obtain c b where c: "ph = Claimed c b" "rid c \<notin> inFlight s (wstage (workers s ! w))"
      "inFlight (loopHead w s) = (inFlight s)(wstage (workers s ! w) :=
                 insert (rid c) (inFlight s (wstage (workers s ! w))))"
      by blast
    show ?thesis
      by (rule poolOk_claim [OF assms(2) ws [unfolded c(1)] assms(3,4,5) c(2,3)])
  qed
qed

text \<open>A change of the state that leaves the workers and the in-flight sets alone.\<close>

lemma poolOk_cong:
  "workers s' = workers s \<Longrightarrow> inFlight s' st = inFlight s st \<Longrightarrow> poolOk n s' st = poolOk n s st"
  by (simp add: poolOk_def holds_def liveWorkers_def)

lemma poolOk_mono: "poolOk n s st \<Longrightarrow> n \<le> m \<Longrightarrow> poolOk m s st"
  by (auto simp: poolOk_def)

lemma spawnWorker_inv:
  assumes "storeOk s" and "poolOk n s st"
  shows "storeOk (spawnWorker c p s)
    \<and> poolOk (if st = c then Suc n else n) (spawnWorker c p s) st"
proof -
  let ?new = "\<lparr>wstage = c, wpool = p, phase = Returned 0\<rparr>"
  let ?t = "s\<lparr>workers := workers s @ [?new]\<rparr>"
  have okt: "storeOk ?t" using assms(1) by (simp add: storeOk_def)
  have h: "holds ?t st i k \<longleftrightarrow> holds s st i k" for i k
    by (auto simp: holds_def nth_append less_Suc_eq)
  have "length (liveWorkers ?t st) = length (liveWorkers s st) + (if st = c then 1 else 0)"
    by (simp add: liveWorkers_def)
  then have pt: "poolOk (if st = c then Suc n else n) ?t st"
    using assms(2) by (auto simp: poolOk_def h)
  have "poolOk (if st = c then Suc n else n) (loopHead (length (workers s)) ?t) st"
    by (rule loopHead_poolOk [OF okt pt]) simp_all
  moreover have "storeOk (loopHead (length (workers s)) ?t)"
    using loopHead_effect [OF okt] by blast
  ultimately show ?thesis by (simp add: spawnWorker_def)
qed

lemma spawn_many_inv:
  "storeOk s \<Longrightarrow> poolOk n s st \<Longrightarrow>
   storeOk (fold (\<lambda>_. spawnWorker c p) ns s)
   \<and> poolOk (if st = c then n + length ns else n) (fold (\<lambda>_. spawnWorker c p) ns s) st"
proof (induction ns arbitrary: s n)
  case Nil
  then show ?case by auto
next
  case (Cons a ns)
  from spawnWorker_inv [OF Cons.prems, of c p]
  have "storeOk (spawnWorker c p s)" "poolOk (if st = c then Suc n else n) (spawnWorker c p s) st"
    by simp_all
  from Cons.IH [OF this] show ?case by (simp split: if_splits)
qed

section \<open>The invariant of a run\<close>

lemma startChecker_inv:
  assumes "storeOk s" and "poolOk BATCH_SIZE s st"
    and "renderedRunning s c \<or> liveWorkers s c = []"
  shows "storeOk (startChecker c s) \<and> poolOk BATCH_SIZE (startChecker c s) st"
proof (cases "renderedRunning s c")
  case True
  then show ?thesis using assms by (simp add: startChecker_def)
next
  case False
  then have idle: "liveWorkers s c = []" using assms(3) by simp
  define s1 where "s1 = s\<lparr>inFlight := (inFlight s)(c := {}),
      stopRequested := (stopRequested s)(c := False),
      running := (running s)(c := True),
      statusMessage := MsgRunning c,
      pools := pools s @ [\<lparr>pstage = c, processedCount = 0, finished = False\<rparr>]\<rparr>"
  have start: "startChecker c s = fold (\<lambda>_. spawnWorker c (length (pools s))) [0 ..< BATCH_SIZE] s1"
    using False by (simp add: startChecker_def s1_def Let_def)
  have ok1: "storeOk s1" using assms(1) by (simp add: s1_def storeOk_def)
  have p1: "poolOk (if st = c then 0 else BATCH_SIZE) s1 st"
  proof (cases "st = c")
    case True
    have none: "\<not> holds s1 c i k" for i k
    proof
      assume h: "holds s1 c i k"
      then have i: "i < length (workers s)" "wstage (workers s ! i) = c"
        "heldKey (phase (workers s ! i)) = Some k"
        by (simp_all add: holds_def s1_def)
      then have "phase (workers s ! i) \<noteq> Exited" by auto
      then have "workers s ! i \<in> set (liveWorkers s c)"
        using i by (simp add: liveWorkers_def)
      then show False using idle by simp
    qed
    have "liveWorkers s1 c = []" using idle by (simp add: liveWorkers_def s1_def)
    then show ?thesis
      using True none by (simp add: poolOk_def s1_def)
  next
    case False
    have "poolOk BATCH_SIZE s1 st = poolOk BATCH_SIZE s st"
      by (rule poolOk_cong) (use False in \<open>simp_all add: s1_def\<close>)
    then show ?thesis using False assms(2) by simp
  qed
  from spawn_many_inv [OF ok1 p1, of c "length (pools s)" "[0 ..< BATCH_SIZE]"]
  show ?thesis by (simp add: start split: if_splits)
qed

lemma settle_inv:
  assumes "storeOk s" and "poolOk n s st"
  shows "storeOk (dnsSettle w now reply rr s) \<and> poolOk n (dnsSettle w now reply rr s) st"
    and "storeOk (rdapSettle w now rr s) \<and> poolOk n (rdapSettle w now rr s) st"
proof -
  have gen: "storeOk (setPhase w (Written c b) (upsertRecords [p] s))
      \<and> poolOk n (setPhase w (Written c b) (upsertRecords [p] s)) st"
    if "w < length (workers s)" "phase (workers s ! w) = Claimed c b" for c b p
  proof -
    have ws: "workers (setPhase w (Written c b) (upsertRecords [p] s))
        = (workers s)[w := (workers s ! w)\<lparr>phase := Written c b\<rparr>]"
      by simp
    have "poolOk n (setPhase w (Written c b) (upsertRecords [p] s)) st"
      by (rule poolOk_same [OF assms(2) ws that(1)]) (simp_all add: that(2))
    then show ?thesis using assms(1) by (simp add: upsertRecords_storeOk)
  qed
  show "storeOk (dnsSettle w now reply rr s) \<and> poolOk n (dnsSettle w now reply rr s) st"
    using assms gen by (simp add: dnsSettle_def Let_def split: Phase.splits)
  show "storeOk (rdapSettle w now rr s) \<and> poolOk n (rdapSettle w now rr s) st"
    using assms gen by (simp add: rdapSettle_def Let_def split: Phase.splits)
qed

lemma release_inv:
  assumes "storeOk s" and "poolOk n s st"
  shows "storeOk (release w s) \<and> poolOk n (release w s) st"
proof -
  have ok: "storeOk (release w s)"
    using assms(1) storeOk_cong [of "release w s" s] by simp
  have "poolOk n (release w s) st"
  proof (cases "w < length (workers s)")
    case False
    then show ?thesis using assms(2) by (simp add: release_def)
  next
    case w: True
    show ?thesis
    proof (cases "phase (workers s ! w)")
      case (Written c b)
      let ?c = "wstage (workers s ! w)"
      have ws: "workers (release w s) = (workers s)[w := (workers s ! w)\<lparr>phase := Returned b\<rparr>]"
        and fl: "inFlight (release w s) = (inFlight s)(?c := inFlight s ?c - {rid c})"
        using w Written by (simp_all add: release_def Let_def)
      show ?thesis
        by (rule poolOk_release [OF assms(2) ws w _ _ fl]) (simp_all add: Written)
    qed (use assms(2) w in \<open>simp_all add: release_def\<close>)
  qed
  with ok show ?thesis by simp
qed

lemma resume_inv:
  assumes "storeOk s" and "poolOk n s st"
  shows "storeOk (resume w s) \<and> poolOk n (resume w s) st"
proof (cases "w < length (workers s)")
  case False
  then show ?thesis using assms by (simp add: resume_def)
next
  case w: True
  show ?thesis
  proof (cases "phase (workers s ! w)")
    case (Returned b)
    have exit: "storeOk (setPhase w Exited s) \<and> poolOk n (setPhase w Exited s) st"
    proof -
      have ws: "workers (setPhase w Exited s) = (workers s)[w := (workers s ! w)\<lparr>phase := Exited\<rparr>]"
        by simp
      have "poolOk n (setPhase w Exited s) st"
        by (rule poolOk_same [OF assms(2) ws w]) (simp_all add: Returned)
      then show ?thesis using assms(1) by simp
    qed
    have loop: "storeOk (loopHead w s) \<and> poolOk n (loopHead w s) st"
      using loopHead_effect [OF assms(1), of w]
        loopHead_poolOk [OF assms(1,2) w] Returned by simp
    show ?thesis
      using w Returned exit loop by (simp add: resume_def Let_def)
  qed (use assms w in \<open>simp_all add: resume_def\<close>)
qed

lemma step_inv:
  assumes "storeOk s" and "poolOk BATCH_SIZE s st"
    and "case e of Start c \<Rightarrow> renderedRunning s c \<or> liveWorkers s c = [] | _ \<Rightarrow> True"
  shows "storeOk (step lc e s) \<and> poolOk BATCH_SIZE (step lc e s) st"
proof (cases e)
  case (Hydrate items)
  have "poolOk BATCH_SIZE (hydrate items s) st = poolOk BATCH_SIZE s st"
    by (rule poolOk_cong) simp_all
  then show ?thesis using Hydrate assms(2) by (simp add: hydrate_storeOk)
next
  case LoadFailed
  have "poolOk BATCH_SIZE (s\<lparr>statusMessage := MsgLoadFailed\<rparr>) st = poolOk BATCH_SIZE s st"
    by (rule poolOk_cong) simp_all
  then show ?thesis using LoadFailed assms by simp
next
  case (Enqueue entries)
  have "poolOk BATCH_SIZE (enqueueDomains lc entries s) st = poolOk BATCH_SIZE s st"
    by (rule poolOk_cong) simp_all
  then show ?thesis using Enqueue assms by (simp add: enqueueDomains_storeOk)
next
  case (Start c)
  then show ?thesis using startChecker_inv [OF assms(1,2), of c] assms(3) by simp
next
  case (Stop c)
  have "poolOk BATCH_SIZE (stopChecker c s) st = poolOk BATCH_SIZE s st"
    by (rule poolOk_cong) (simp_all add: stopChecker_def)
  moreover have "storeOk (stopChecker c s) = storeOk s"
    by (rule storeOk_cong) (simp_all add: stopChecker_def)
  ultimately show ?thesis using Stop assms by simp
next
  case Clear
  have "poolOk BATCH_SIZE (handleClear s) st = poolOk BATCH_SIZE s st"
    by (rule poolOk_cong) (simp_all add: handleClear_def)
  then show ?thesis using Clear assms by (simp add: handleClear_storeOk)
next
  case Render
  have "poolOk BATCH_SIZE (s\<lparr>renderedRunning := running s\<rparr>) st = poolOk BATCH_SIZE s st"
    by (rule poolOk_cong) simp_all
  moreover have "storeOk (s\<lparr>renderedRunning := running s\<rparr>) = storeOk s"
    by (rule storeOk_cong) simp_all
  ultimately show ?thesis using Render assms by simp
next
  case (DnsSettle w now reply rr)
  then show ?thesis using settle_inv(1) [OF assms(1,2)] by simp
next
  case (RdapSettle w now rr)
  then show ?thesis using settle_inv(2) [OF assms(1,2)] by simp
next
  case (Release w)
  then show ?thesis using release_inv [OF assms(1,2)] by simp
next
  case (Resume w)
  then show ?thesis using resume_inv [OF assms(1,2)] by simp
next
  case (Finish p)
  have "poolOk BATCH_SIZE (finishChecker p s) st = poolOk BATCH_SIZE s st"
    by (rule poolOk_cong) (simp_all add: finishChecker_def Let_def)
  moreover have "storeOk (finishChecker p s) = storeOk s"
    by (rule storeOk_cong) (simp_all add: finishChecker_def Let_def)
  ultimately show ?thesis using Finish assms by simp
qed

lemma run_inv:
  "orderly lc s es \<Longrightarrow> storeOk s \<Longrightarrow> poolOk BATCH_SIZE s Dns \<Longrightarrow> poolOk BATCH_SIZE s Rdap \<Longrightarrow>
   storeOk (run lc es s) \<and> poolOk BATCH_SIZE (run lc es s) Dns \<and> poolOk BATCH_SIZE (run lc es s) Rdap"
proof (induction es arbitrary: s)
  case Nil
  then show ?case by (simp add: run_def)
next
  case (Cons e es)
  have ev: "case e of Start c \<Rightarrow> renderedRunning s c \<or> liveWorkers s c = [] | _ \<Rightarrow> True"
    and rest: "orderly lc (step lc e s) es"
    using Cons.prems(1) by simp_all
  have "storeOk (step lc e s)" "poolOk BATCH_SIZE (step lc e s) Dns"
    "poolOk BATCH_SIZE (step lc e s) Rdap"
    using step_inv [OF Cons.prems(2,3) ev] step_inv [OF Cons.prems(2,4) ev] by simp_all
  from Cons.IH [OF rest this] show ?case by (simp add: run_def)
qed

lemma mount_inv: "storeOk mount \<and> poolOk n mount st"
  by (simp add: mount_def storeOk_def poolOk_def holds_def liveWorkers_def)

lemma map_filter_snoc:
  "List.map_filter f (xs @ [x]) = List.map_filter f xs @ (case f x of None \<Rightarrow> [] | Some y \<Rightarrow> [y])"
  by (simp add: List.map_filter_def split: option.splits)

lemma set_map_filter_nth:
  "set (List.map_filter f xs) = {y. \<exists>i < length xs. f (xs ! i) = Some y}"
proof (rule set_eqI)
  fix y
  have "y \<in> set (List.map_filter f xs) \<longleftrightarrow> (\<exists>x \<in> set xs. f x = Some y)"
    by (force simp: List.map_filter_def)
  also have "\<dots> \<longleftrightarrow> (\<exists>i < length xs. f (xs ! i) = Some y)"
    by (metis in_set_conv_nth)
  finally show "y \<in> set (List.map_filter f xs) \<longleftrightarrow> y \<in> {y. \<exists>i < length xs. f (xs ! i) = Some y}"
    by simp
qed

lemma distinct_map_filter_nth:
  assumes "\<And>i j y. i < length xs \<Longrightarrow> j < length xs \<Longrightarrow> f (xs ! i) = Some y \<Longrightarrow>
      f (xs ! j) = Some y \<Longrightarrow> i = j"
  shows "distinct (List.map_filter f xs)"
  using assms
proof (induction xs rule: rev_induct)
  case Nil
  then show ?case by (simp add: List.map_filter_def)
next
  case (snoc x xs)
  have inner: "distinct (List.map_filter f xs)"
  proof (rule snoc.IH)
    fix i j y assume "i < length xs" "j < length xs" "f (xs ! i) = Some y" "f (xs ! j) = Some y"
    then show "i = j"
      using snoc.prems [of i j y] by (simp add: nth_append)
  qed
  show ?case
  proof (cases "f x")
    case None
    then show ?thesis using inner by (simp add: map_filter_snoc)
  next
    case (Some y)
    have "y \<notin> set (List.map_filter f xs)"
    proof
      assume "y \<in> set (List.map_filter f xs)"
      then obtain i where i: "i < length xs" "f (xs ! i) = Some y"
        by (auto simp: set_map_filter_nth)
      from snoc.prems [of i "length xs" y] i Some show False
        by (simp add: nth_append)
    qed
    then show ?thesis using inner Some by (simp add: map_filter_snoc)
  qed
qed

lemma heldKeys_set: "set (heldKeys s st) = {k. \<exists>w. holds s st w k}"
  by (auto simp: heldKeys_def set_map_filter_nth holds_def split: if_splits)

lemma heldKeys_distinct:
  assumes "\<And>i j k. holds s st i k \<Longrightarrow> holds s st j k \<Longrightarrow> i = j"
  shows "distinct (heldKeys s st)"
  unfolding heldKeys_def
proof (rule distinct_map_filter_nth)
  fix i j y
  assume "i < length (workers s)" "j < length (workers s)"
    "(if wstage (workers s ! i) = st then heldKey (phase (workers s ! i)) else None) = Some y"
    "(if wstage (workers s ! j) = st then heldKey (phase (workers s ! j)) else None) = Some y"
  then have "holds s st i y" "holds s st j y"
    by (simp_all add: holds_def split: if_splits)
  then show "i = j" by (rule assms)
qed

lemma heldKeys_length: "length (heldKeys s st) \<le> length (liveWorkers s st)"
proof -
  have mono: "length (filter P xs) \<le> length (filter Q xs)" if "\<And>x. P x \<Longrightarrow> Q x"
    for P Q :: "Worker \<Rightarrow> bool" and xs
    using that by (induction xs) auto
  have "length (heldKeys s st)
      = length (filter (\<lambda>w. (if wstage w = st then heldKey (phase w) else None) \<noteq> None) (workers s))"
    by (simp add: heldKeys_def List.map_filter_def)
  also have "\<dots> \<le> length (filter (\<lambda>w. wstage w = st \<and> phase w \<noteq> Exited) (workers s))"
    by (rule mono) (auto split: if_splits)
  finally show ?thesis by (simp add: liveWorkers_def)
qed

text \<open>
  While each stage has one pool at a time the held ids are kept apart. In every state
  that an orderly run reaches from the mounted hook, and for either stage: the ids
  that the workers of the stage hold are pairwise different, they are exactly the
  in-flight set of the stage, and that set has at most 50 elements; and when
  \<open>popCandidate\<close> returns a record, its id was not in the in-flight set and is no
  longer in the membership set of the queue.
\<close>

lemma orderly_held_apart:
  assumes "orderly lc mount es"
  shows "distinct (heldKeys (run lc es mount) st)
    \<and> set (heldKeys (run lc es mount) st) = inFlight (run lc es mount) st
    \<and> card (inFlight (run lc es mount) st) \<le> 50
    \<and> (\<forall>c t. popCandidate st (run lc es mount) = (Some c, t) \<longrightarrow>
          rid c \<notin> inFlight (run lc es mount) st \<and> rid c \<notin> queueSetRef t st)"
proof -
  let ?s = "run lc es mount"
  from run_inv [OF assms] mount_inv
  have ok: "storeOk ?s" and pools: "poolOk BATCH_SIZE ?s Dns" "poolOk BATCH_SIZE ?s Rdap"
    by simp_all
  have pool: "poolOk BATCH_SIZE ?s st"
    using pools by (cases st) simp_all
  then have inj: "\<And>i j k. holds ?s st i k \<Longrightarrow> holds ?s st j k \<Longrightarrow> i = j"
    and fl: "inFlight ?s st = {k. \<exists>w. holds ?s st w k}"
    and live: "length (liveWorkers ?s st) \<le> BATCH_SIZE"
    unfolding poolOk_def by blast+
  have d: "distinct (heldKeys ?s st)"
    using inj by (rule heldKeys_distinct)
  have e: "set (heldKeys ?s st) = inFlight ?s st"
    by (simp add: heldKeys_set fl)
  have "card (inFlight ?s st) = length (heldKeys ?s st)"
    using d e distinct_card by fastforce
  then have c: "card (inFlight ?s st) \<le> 50"
    using heldKeys_length [of ?s st] live by (simp add: BATCH_SIZE_def)
  have p: "rid c \<notin> inFlight ?s st \<and> rid c \<notin> queueSetRef t st"
    if "popCandidate st ?s = (Some c, t)" for c t
    using popCandidate_some [OF ok that] by simp
  from d e c p show ?thesis by blast
qed

text \<open>
  Claim C1 fails in the run \<open>restartRun\<close>. \<open>handleClear\<close> resets \<open>running\<close> without
  waiting for the workers, so \<open>startChecker\<close> passes its guard while workers 0 and 1
  of the first pool still wait for their lookups, and it empties the in-flight set
  that held their ids. When worker 1 has written back its record, which is again a
  candidate, and has not yet released the id, the next pass of worker 0 pops the
  same id: it is in the membership set and not in the in-flight set. Both workers
  of the RDAP stage now hold the id \<open>k3\<close>.
\<close>

theorem double_claim_after_restart:
  "heldKeys (run asciiLower restartRun mount) Rdap = [js ''k3'', js ''k3'']
   \<and> map phase (take 2 (workers (run asciiLower restartRun mount)))
       = [Claimed (examplePending\<lparr>rdapStatus := RdapUnknown, checkedAt := Some 8\<rparr>) 1,
          Written examplePending 0]"
proof -
  have held: "heldKeys (run asciiLower restartRun mount) Rdap = [js ''k3'', js ''k3'']"
    by code_simp
  have phases: "map phase (take 2 (workers (run asciiLower restartRun mount)))
       = [Claimed (examplePending\<lparr>rdapStatus := RdapUnknown, checkedAt := Some 8\<rparr>) 1,
          Written examplePending 0]"
    by code_simp
  from held phases show ?thesis by simp
qed

section \<open>Lazy deletion\<close>

lemma upsertOne_rdap_absent:
  assumes "k \<notin> queueSetRef s Rdap" and "\<not> isRdapCandidate item \<or> rid item \<noteq> k"
  shows "k \<notin> queueSetRef (upsertOne item s) Rdap"
  using assms by (auto simp: upsertOne_queueSetRef split: if_splits)

lemma loopHead_rdap_absent:
  assumes "storeOk s" and "k \<notin> queueSetRef s Rdap" and "k \<notin> inFlight s Rdap"
  shows "storeOk (loopHead w s) \<and> k \<notin> queueSetRef (loopHead w s) Rdap
    \<and> k \<notin> inFlight (loopHead w s) Rdap"
proof -
  let ?st = "wstage (workers s ! w)"
  let ?b = "processedCount (pools s ! wpool (workers s ! w))"
  have ok: "storeOk (loopHead w s)"
    using loopHead_effect [OF assms(1)] by blast
  obtain cand s1 where pop: "popCandidate ?st s = (cand, s1)"
    by (cases "popCandidate ?st s")
  have s1: "inFlight s1 = inFlight s" "records s1 = records s" "index s1 = index s"
    using popCandidate_fields [of ?st s] by (simp_all add: pop)
  have q1: "k \<notin> queueSetRef s1 Rdap"
    using popCandidate_queues(1) [of Rdap s] popCandidate_queues(2) [of Rdap ?st s] assms(2) pop
    by (cases "?st = Rdap") auto
  show ?thesis
  proof (cases "stopRequested s ?st")
    case True
    then have "loopHead w s = setPhase w Exited s"
      by (simp add: loopHead_def Let_def)
    then show ?thesis using assms ok by simp
  next
    case False
    show ?thesis
    proof (cases cand)
      case None
      then have "loopHead w s = setPhase w (Returned ?b) s1"
        using False pop by (simp add: loopHead_def Let_def)
      then show ?thesis using assms(3) ok q1 s1 by simp
    next
      case (Some c)
      define s2 where "s2 = s1\<lparr>inFlight := (inFlight s1)(?st := insert (rid c) (inFlight s1 ?st))\<rparr>"
      define s3 where "s3 = (if ?st = Dns then upsertRecords [c\<lparr>status := Checking\<rparr>] s2 else s2)"
      have lh: "loopHead w s = setPhase w (Claimed c ?b) s3"
        using False pop Some by (simp add: loopHead_def Let_def s2_def s3_def)
      have mem: "rid c \<in> queueSetRef s ?st"
        using popCandidate_some [OF assms(1) pop [unfolded Some]] by simp
      have fl2: "k \<notin> inFlight s2 Rdap"
        using assms(2,3) mem s1 by (cases "?st = Rdap") (auto simp: s2_def)
      have q2: "k \<notin> queueSetRef s2 Rdap"
        using q1 by (simp add: s2_def)
      have q3: "k \<notin> queueSetRef s3 Rdap"
      proof (cases "?st = Dns")
        case True
        have "\<not> isRdapCandidate (c\<lparr>status := Checking\<rparr>)"
          by (simp add: isRdapCandidate_def)
        then have "k \<notin> queueSetRef (upsertOne (c\<lparr>status := Checking\<rparr>) s2) Rdap"
          using upsertOne_rdap_absent [OF q2] by blast
        then show ?thesis using True by (simp add: s3_def upsertRecords_def)
      next
        case False
        then show ?thesis using q2 by (simp add: s3_def)
      qed
      have fl3: "k \<notin> inFlight s3 Rdap"
        using fl2 by (simp add: s3_def)
      show ?thesis using ok q3 fl3 by (simp add: lh)
    qed
  qed
qed

lemma passes_rdap_absent:
  "storeOk s \<Longrightarrow> k \<notin> queueSetRef s Rdap \<Longrightarrow> k \<notin> inFlight s Rdap \<Longrightarrow>
   storeOk (fold loopHead ws s) \<and> k \<notin> queueSetRef (fold loopHead ws s) Rdap
   \<and> k \<notin> inFlight (fold loopHead ws s) Rdap"
proof (induction ws arbitrary: s)
  case Nil
  then show ?case by simp
next
  case (Cons w ws)
  from loopHead_rdap_absent [OF Cons.prems, of w]
  have "storeOk (loopHead w s)" "k \<notin> queueSetRef (loopHead w s) Rdap"
    "k \<notin> inFlight (loopHead w s) Rdap" by simp_all
  from Cons.IH [OF this] show ?case by simp
qed

text \<open>
  Claim C4. An item is stored as a candidate of the verify stage, its id waits in
  the verify queue and no worker has it in flight. An upsert then stores a record
  for it that is no candidate any more. The upsert deletes the id from the
  membership set of the verify queue, and after any number of passes of any workers
  the id is neither in flight in the verify stage nor back in the membership set,
  and \<open>popCandidate\<close> for the verify stage does not return it: the worker that shifts
  its entry off the array drops it, and no RDAP lookup is started for it.
\<close>

theorem stale_entry_skipped:
  assumes "storeOk s"
    and "stored s k = Some r" and "isRdapCandidate r"
    and "k \<in> queueSetRef s Rdap" and "k \<notin> inFlight s Rdap"
    and "rid r' = k" and "\<not> isRdapCandidate r'"
  shows "k \<notin> queueSetRef (upsertRecords [r'] s) Rdap
    \<and> k \<notin> inFlight (fold loopHead ws (upsertRecords [r'] s)) Rdap
    \<and> k \<notin> queueSetRef (fold loopHead ws (upsertRecords [r'] s)) Rdap
    \<and> (\<forall>c t. popCandidate Rdap (fold loopHead ws (upsertRecords [r'] s)) = (Some c, t)
          \<longrightarrow> rid c \<noteq> k)"
proof -
  let ?s1 = "upsertRecords [r'] s"
  let ?s2 = "fold loopHead ws ?s1"
  have ok1: "storeOk ?s1" using assms(1) by (rule upsertRecords_storeOk)
  have q1: "k \<notin> queueSetRef ?s1 Rdap"
    using assms(2,3,6,7) by (simp add: upsertRecords_def upsertOne_queueSetRef)
  have f1: "k \<notin> inFlight ?s1 Rdap" using assms(5) by simp
  from passes_rdap_absent [OF ok1 q1 f1, of ws]
  have s2: "storeOk ?s2" "k \<notin> queueSetRef ?s2 Rdap" "k \<notin> inFlight ?s2 Rdap" by simp_all
  have "rid c \<noteq> k" if "popCandidate Rdap ?s2 = (Some c, t)" for c t
    using popCandidate_some [OF s2(1) that] s2(2) by auto
  with q1 s2 show ?thesis by blast
qed

theorem stale_entry_skipped_witness:
  "stored (run asciiLower [Start Rdap, Hydrate [exampleAvailable]] mount) (js ''k1'')
      = Some exampleAvailable
   \<and> isRdapCandidate exampleAvailable
   \<and> js ''k1'' \<in> queueSetRef (run asciiLower [Start Rdap, Hydrate [exampleAvailable]] mount) Rdap
   \<and> queueRef (run asciiLower [Start Rdap, Hydrate [exampleAvailable]] mount) Rdap = [js ''k1'']
   \<and> \<not> isRdapCandidate (exampleAvailable\<lparr>status := Taken\<rparr>)
   \<and> js ''k1'' \<notin> inFlight (fold loopHead [0]
        (upsertRecords [exampleAvailable\<lparr>status := Taken\<rparr>]
          (run asciiLower [Start Rdap, Hydrate [exampleAvailable]] mount))) Rdap
   \<and> queueRef (fold loopHead [0]
        (upsertRecords [exampleAvailable\<lparr>status := Taken\<rparr>]
          (run asciiLower [Start Rdap, Hydrate [exampleAvailable]] mount))) Rdap = []"
proof -
  let ?s = "run asciiLower [Start Rdap, Hydrate [exampleAvailable]] mount"
  have ok: "storeOk ?s"
    by (simp add: run_def hydrate_storeOk)
  have facts: "stored ?s (js ''k1'') = Some exampleAvailable"
    "js ''k1'' \<in> queueSetRef ?s Rdap" "js ''k1'' \<notin> inFlight ?s Rdap"
    "queueRef ?s Rdap = [js ''k1'']"
    unfolding exampleAvailable_def by code_simp+
  have cand: "isRdapCandidate exampleAvailable" "\<not> isRdapCandidate (exampleAvailable\<lparr>status := Taken\<rparr>)"
    "rid (exampleAvailable\<lparr>status := Taken\<rparr>) = js ''k1''"
    by (simp_all add: isRdapCandidate_def exampleAvailable_def rdapFinalStatuses_def)
  have dropped: "queueRef (fold loopHead [0]
        (upsertRecords [exampleAvailable\<lparr>status := Taken\<rparr>] ?s)) Rdap = []"
    unfolding exampleAvailable_def by code_simp
  from stale_entry_skipped [OF ok facts(1) cand(1) facts(2,3) cand(3,2), of "[0]"]
    facts cand dropped
  show ?thesis by simp
qed

section \<open>Settled items\<close>

lemma settledAs_upsertOne:
  assumes "settledAs st k s" and "rid item \<noteq> k"
  shows "settledAs st k (upsertOne item s)"
proof -
  have ok: "storeOk s" using assms(1) by (simp add: settledAs_def)
  have "stored (upsertOne item s) k = stored s k"
    using assms(2) by (simp add: upsertOne_stored [OF ok])
  moreover have "k \<notin> queueSetRef (upsertOne item s) Dns" "k \<notin> queueSetRef (upsertOne item s) Rdap"
    using assms by (auto simp: settledAs_def upsertOne_queueSetRef split: if_splits)
  ultimately show ?thesis
    using assms(1) upsertOne_storeOk [OF ok, of item] by (simp add: settledAs_def)
qed

lemma settledAs_upsertRecords:
  "settledAs st k s \<Longrightarrow> list_all (\<lambda>item. rid item \<noteq> k) items \<Longrightarrow>
   settledAs st k (upsertRecords items s)"
proof -
  have "settledAs st k t \<Longrightarrow> list_all (\<lambda>item. rid item \<noteq> k) items \<Longrightarrow>
      settledAs st k (fold upsertOne items t)" for t
    by (induction items arbitrary: t) (simp_all add: settledAs_upsertOne)
  then show "settledAs st k s \<Longrightarrow> list_all (\<lambda>item. rid item \<noteq> k) items \<Longrightarrow>
      settledAs st k (upsertRecords items s)"
    by (simp add: upsertRecords_def)
qed

lemma settledAs_cong:
  assumes "records s' = records s" "index s' = index s" "workers s' = workers s"
    "queueSetRef s' = queueSetRef s" "inFlight s' Rdap \<subseteq> inFlight s Rdap"
  shows "settledAs st k s \<Longrightarrow> settledAs st k s'"
proof -
  have "stored s' k = stored s k"
    by (simp add: stored_def assms(1,2) cong: option.case_cong)
  then show "settledAs st k s \<Longrightarrow> settledAs st k s'"
    using assms storeOk_cong [OF assms(1,2)] by (auto simp: settledAs_def)
qed

lemma settledAs_setPhase:
  assumes "settledAs st k s" and "claimedKey ph \<noteq> Some k"
  shows "settledAs st k (setPhase w ph s)"
proof -
  have "list_all (\<lambda>w. claimedKey (phase w) \<noteq> Some k) ((workers s)[w := (workers s ! w)\<lparr>phase := ph\<rparr>])"
    using assms by (auto simp: settledAs_def list_all_iff dest!: set_update_subset_insert [THEN subsetD])
  moreover have "stored (setPhase w ph s) k = stored s k"
    by (simp add: stored_def cong: option.case_cong)
  ultimately show ?thesis
    using assms(1) by (simp add: settledAs_def)
qed

lemma settledAs_loopHead:
  assumes "settledAs st k s"
  shows "settledAs st k (loopHead w s)"
proof -
  let ?st = "wstage (workers s ! w)"
  let ?b = "processedCount (pools s ! wpool (workers s ! w))"
  have ok: "storeOk s" using assms by (simp add: settledAs_def)
  obtain cand s1 where pop: "popCandidate ?st s = (cand, s1)"
    by (cases "popCandidate ?st s")
  have s1: "workers s1 = workers s" "inFlight s1 = inFlight s" "records s1 = records s"
    "index s1 = index s"
    using popCandidate_fields [of ?st s] by (simp_all add: pop)
  have sets: "k \<notin> queueSetRef s1 Dns" "k \<notin> queueSetRef s1 Rdap"
    using popCandidate_queues(1) [of ?st s] popCandidate_queues(2) [of _ ?st s] assms pop
    by (cases ?st; auto simp: settledAs_def)+
  have st1: "stored s1 k = stored s k"
    by (simp add: stored_def s1 cong: option.case_cong)
  have t1: "settledAs st k s1"
    using assms s1 sets storeOk_cong [OF s1(3,4)] by (simp add: settledAs_def st1)
  show ?thesis
  proof (cases "stopRequested s ?st")
    case True
    then have "loopHead w s = setPhase w Exited s"
      by (simp add: loopHead_def Let_def)
    then show ?thesis using settledAs_setPhase [OF assms, of Exited w] by simp
  next
    case False
    show ?thesis
    proof (cases cand)
      case None
      then have "loopHead w s = setPhase w (Returned ?b) s1"
        using False pop by (simp add: loopHead_def Let_def)
      then show ?thesis using settledAs_setPhase [OF t1, of "Returned ?b" w] by simp
    next
      case (Some c)
      define s2 where "s2 = s1\<lparr>inFlight := (inFlight s1)(?st := insert (rid c) (inFlight s1 ?st))\<rparr>"
      define s3 where "s3 = (if ?st = Dns then upsertRecords [c\<lparr>status := Checking\<rparr>] s2 else s2)"
      have lh: "loopHead w s = setPhase w (Claimed c ?b) s3"
        using False pop Some by (simp add: loopHead_def Let_def s2_def s3_def)
      have "rid c \<in> queueSetRef s ?st"
        using popCandidate_some [OF ok pop [unfolded Some]] by simp
      then have ne: "rid c \<noteq> k"
        using assms by (cases ?st) (auto simp: settledAs_def)
      have st2: "stored s2 k = stored s1 k"
        by (simp add: stored_def s2_def cong: option.case_cong)
      have ok2: "storeOk s2 = storeOk s1"
        by (rule storeOk_cong) (simp_all add: s2_def)
      have t2: "settledAs st k s2"
        using t1 ne by (auto simp: settledAs_def st2 ok2) (simp_all add: s2_def split: if_splits)
      have t3: "settledAs st k s3"
        using t2 ne by (simp add: s3_def settledAs_upsertRecords)
      show ?thesis
        using settledAs_setPhase [OF t3, of "Claimed c ?b" w] ne by (simp add: lh)
    qed
  qed
qed

lemma settledAs_spawnWorker:
  assumes "settledAs st k s"
  shows "settledAs st k (spawnWorker c p s)"
proof -
  let ?t = "s\<lparr>workers := workers s @ [\<lparr>wstage = c, wpool = p, phase = Returned 0\<rparr>]\<rparr>"
  have "stored ?t k = stored s k"
    by (simp add: stored_def cong: option.case_cong)
  moreover have "storeOk ?t = storeOk s"
    by (rule storeOk_cong) simp_all
  ultimately have "settledAs st k ?t"
    using assms by (simp add: settledAs_def)
  then show ?thesis
    by (simp add: spawnWorker_def settledAs_loopHead)
qed

lemma settledAs_startChecker:
  assumes "settledAs st k s"
  shows "settledAs st k (startChecker c s)"
proof (cases "renderedRunning s c")
  case True
  then show ?thesis using assms by (simp add: startChecker_def)
next
  case False
  define s1 where "s1 = s\<lparr>inFlight := (inFlight s)(c := {}),
      stopRequested := (stopRequested s)(c := False),
      running := (running s)(c := True),
      statusMessage := MsgRunning c,
      pools := pools s @ [\<lparr>pstage = c, processedCount = 0, finished = False\<rparr>]\<rparr>"
  have start: "startChecker c s = fold (\<lambda>_. spawnWorker c (length (pools s))) [0 ..< BATCH_SIZE] s1"
    using False by (simp add: startChecker_def s1_def Let_def)
  have t1: "settledAs st k s1"
    by (rule settledAs_cong [OF _ _ _ _ _ assms]) (simp_all add: s1_def)
  have "settledAs st k t \<Longrightarrow> settledAs st k (fold (\<lambda>_. spawnWorker c p) ns t)" for t p ns
    by (induction ns arbitrary: t) (simp_all add: settledAs_spawnWorker)
  from this [OF t1] show ?thesis by (simp add: start)
qed

lemma settledAs_claimed:
  assumes "settledAs st k s" and "w < length (workers s)" and "phase (workers s ! w) = Claimed c b"
  shows "rid c \<noteq> k"
proof -
  have "claimedKey (phase (workers s ! w)) \<noteq> Some k"
    using assms(1,2) by (simp add: settledAs_def list_all_length)
  then show ?thesis using assms(3) by auto
qed

lemma settledAs_settle:
  assumes "settledAs st k s"
  shows "settledAs st k (dnsSettle w now reply rr s)"
    and "settledAs st k (rdapSettle w now rr s)"
proof -
  have gen: "settledAs st k (setPhase w (Written c b) (upsertRecords [p] s))"
    if "rid p \<noteq> k" for c b p
    using settledAs_setPhase [OF settledAs_upsertRecords [OF assms, of "[p]"], of "Written c b" w]
      that by simp
  show "settledAs st k (dnsSettle w now reply rr s)"
  proof (cases "w < length (workers s) \<and> wstage (workers s ! w) = Dns")
    case False
    then show ?thesis using assms by (auto simp: dnsSettle_def)
  next
    case True
    show ?thesis
    proof (cases "phase (workers s ! w)")
      case (Claimed c b)
      have "rid c \<noteq> k"
        using settledAs_claimed [OF assms _ Claimed] True by simp
      then show ?thesis
        using True Claimed gen by (simp add: dnsSettle_def Let_def)
    qed (use assms True in \<open>simp_all add: dnsSettle_def\<close>)
  qed
  show "settledAs st k (rdapSettle w now rr s)"
  proof (cases "w < length (workers s) \<and> wstage (workers s ! w) = Rdap")
    case False
    then show ?thesis using assms by (auto simp: rdapSettle_def)
  next
    case True
    show ?thesis
    proof (cases "phase (workers s ! w)")
      case (Claimed c b)
      have "rid c \<noteq> k"
        using settledAs_claimed [OF assms _ Claimed] True by simp
      then show ?thesis
        using True Claimed gen by (simp add: rdapSettle_def Let_def)
    qed (use assms True in \<open>simp_all add: rdapSettle_def\<close>)
  qed
qed

lemma settledAs_release:
  assumes "settledAs st k s"
  shows "settledAs st k (release w s)"
proof (cases "w < length (workers s)")
  case False
  then show ?thesis using assms by (simp add: release_def)
next
  case w: True
  show ?thesis
  proof (cases "phase (workers s ! w)")
    case (Written c b)
    define t where "t = s\<lparr>pools := (pools s)[wpool (workers s ! w) :=
          (pools s ! wpool (workers s ! w))\<lparr>processedCount :=
             processedCount (pools s ! wpool (workers s ! w)) + 1\<rparr>],
        statusMessage := MsgChecked (wstage (workers s ! w))
          (processedCount (pools s ! wpool (workers s ! w)) + 1),
        inFlight := (inFlight s)(wstage (workers s ! w) :=
          inFlight s (wstage (workers s ! w)) - {rid c})\<rparr>"
    have rel: "release w s = setPhase w (Returned b) t"
      using w Written by (simp add: release_def Let_def t_def)
    have "settledAs st k t"
      by (rule settledAs_cong [OF _ _ _ _ _ assms]) (auto simp: t_def)
    then show ?thesis
      using settledAs_setPhase [of st k t "Returned b" w] by (simp add: rel)
  qed (use assms w in \<open>simp_all add: release_def\<close>)
qed

lemma settledAs_resume:
  assumes "settledAs st k s"
  shows "settledAs st k (resume w s)"
proof (cases "w < length (workers s)")
  case False
  then show ?thesis using assms by (simp add: resume_def)
next
  case w: True
  show ?thesis
  proof (cases "phase (workers s ! w)")
    case (Returned b)
    then show ?thesis
      using w settledAs_setPhase [OF assms, of Exited w] settledAs_loopHead [OF assms, of w]
      by (simp add: resume_def Let_def)
  qed (use assms w in \<open>simp_all add: resume_def\<close>)
qed

lemma collectNew_id:
  "x \<in> set (collectNew lc entries existing) \<Longrightarrow> rid x \<in> set (map (\<lambda>e. fst (snd e)) entries)"
proof (induction lc entries existing rule: collectNew.induct)
  case (1 lc existing)
  then show ?case by simp
next
  case (2 lc entry newId now es existing)
  show ?case
  proof (cases "normalizeDomain lc entry")
    case None
    then show ?thesis using 2 by simp
  next
    case (Some n)
    show ?thesis
    proof (cases "n \<in> existing")
      case True
      then show ?thesis using 2 Some by simp
    next
      case False
      from "2.prems" Some False
      have "x = \<lparr>rid = newId, domain = n, core = deriveCore n, status = Queued,
            rdapStatus = NotChecked, createdAt = now, checkedAt = None, source = Import\<rparr>
          \<or> x \<in> set (collectNew lc es (insert n existing))"
        by simp
      then show ?thesis
      proof
        assume "x \<in> set (collectNew lc es (insert n existing))"
        from "2.IH"(3) [OF Some False this] show ?thesis by simp
      qed simp
    qed
  qed
qed

lemma collectNew_ids:
  "set (map rid (collectNew lc entries existing)) \<subseteq> set (map (\<lambda>e. fst (snd e)) entries)"
  using collectNew_id by fastforce

lemma settledAs_enqueue:
  assumes "settledAs st k s" and "k \<notin> set (map (\<lambda>e. fst (snd e)) entries)"
  shows "settledAs st k (enqueueDomains lc entries s)"
proof -
  let ?ex = "set (map domain (List.map_filter (\<lambda>slot. slot) (records s)))"
  have ids: "list_all (\<lambda>item. rid item \<noteq> k) (collectNew lc entries ?ex)"
    using collectNew_ids [of lc entries ?ex] assms(2) by (auto simp: list_all_iff)
  have up: "settledAs st k (upsertRecords (collectNew lc entries ?ex) s)"
    by (rule settledAs_upsertRecords [OF assms(1) ids])
  have msg: "settledAs st k (t\<lparr>statusMessage := m\<rparr>)" if "settledAs st k t" for t m
    by (rule settledAs_cong [OF _ _ _ _ _ that]) simp_all
  show ?thesis
    using msg [OF up] msg [OF assms(1)] by (simp add: enqueueDomains_def Let_def)
qed

lemma settledAs_clear:
  assumes "settledAs st k s"
  shows "settledAs st k (handleClear s)"
  using assms by (simp add: settledAs_def handleClear_def stored_def storeOk_def)

lemma settledAs_step:
  assumes "settledAs st k s" and "quietFor k e"
  shows "settledAs st k (step lc e s)"
proof (cases e)
  case (Hydrate items)
  then show ?thesis using assms(2) by simp
next
  case LoadFailed
  have "settledAs st k (s\<lparr>statusMessage := MsgLoadFailed\<rparr>)"
    by (rule settledAs_cong [OF _ _ _ _ _ assms(1)]) simp_all
  then show ?thesis using LoadFailed by simp
next
  case (Enqueue entries)
  then show ?thesis using settledAs_enqueue [OF assms(1)] assms(2) by simp
next
  case (Start c)
  then show ?thesis using settledAs_startChecker [OF assms(1)] by simp
next
  case (Stop c)
  have "settledAs st k (stopChecker c s)"
    by (rule settledAs_cong [OF _ _ _ _ _ assms(1)]) (simp_all add: stopChecker_def)
  then show ?thesis using Stop by simp
next
  case Clear
  then show ?thesis using settledAs_clear [OF assms(1)] by simp
next
  case Render
  have "settledAs st k (s\<lparr>renderedRunning := running s\<rparr>)"
    by (rule settledAs_cong [OF _ _ _ _ _ assms(1)]) simp_all
  then show ?thesis using Render by simp
next
  case (DnsSettle w now reply rr)
  then show ?thesis using settledAs_settle(1) [OF assms(1)] by simp
next
  case (RdapSettle w now rr)
  then show ?thesis using settledAs_settle(2) [OF assms(1)] by simp
next
  case (Release w)
  then show ?thesis using settledAs_release [OF assms(1)] by simp
next
  case (Resume w)
  then show ?thesis using settledAs_resume [OF assms(1)] by simp
next
  case (Finish p)
  have "settledAs st k (finishChecker p s)"
    by (rule settledAs_cong [OF _ _ _ _ _ assms(1)]) (simp_all add: finishChecker_def Let_def)
  then show ?thesis using Finish by simp
qed

lemma settledAs_run:
  "settledAs st k s \<Longrightarrow> list_all (quietFor k) es \<Longrightarrow> settledAs st k (run lc es s)"
proof (induction es arbitrary: s)
  case Nil
  then show ?case by (simp add: run_def)
next
  case (Cons e es)
  have "settledAs st k (step lc e s)"
    using settledAs_step [OF Cons.prems(1)] Cons.prems(2) by simp
  from Cons.IH [OF this] Cons.prems(2) show ?case by (simp add: run_def)
qed

lemma runDnsLookup_positive_not_candidate:
  assumes "authoritativePositive reply"
  shows "status (runDnsLookup r now reply rr) = Taken
    \<and> rdapStatus (runDnsLookup r now reply rr) = NotChecked
    \<and> \<not> isRdapCandidate (runDnsLookup r now reply rr)"
  using runDnsLookup_positive [OF assms, of r now rr]
  by (simp add: isRdapCandidate_def)

lemma settledAs_established:
  assumes "storeOk s"
    and "w < length (workers s)" and "wstage (workers s ! w) = Dns"
    and "phase (workers s ! w) = Claimed c b"
    and "status (runDnsLookup (c\<lparr>status := Checking\<rparr>) now reply rr) = st
      \<and> rdapStatus (runDnsLookup (c\<lparr>status := Checking\<rparr>) now reply rr) = NotChecked
      \<and> (st = Taken \<or> st = Unknown)"
    and "length (filter (\<lambda>x. claimedKey (phase x) = Some (rid c)) (workers s)) \<le> 1"
    and "rid c \<notin> queueSetRef s Dns" and "rid c \<notin> queueSetRef s Rdap"
    and "rid c \<notin> inFlight s Rdap"
  shows "settledAs st (rid c) (dnsSettle w now reply rr s)
    \<and> stored (dnsSettle w now reply rr s) (rid c)
        = Some (runDnsLookup (c\<lparr>status := Checking\<rparr>) now reply rr)"
proof -
  let ?p = "runDnsLookup (c\<lparr>status := Checking\<rparr>) now reply rr"
  let ?u = "upsertRecords [?p] s"
  have p: "status ?p = st" "rdapStatus ?p = NotChecked" "\<not> isRdapCandidate ?p" "rid ?p = rid c"
    "status ?p \<noteq> Queued"
    using assms(5) by (auto simp: isRdapCandidate_def)
  have settle: "dnsSettle w now reply rr s = setPhase w (Written c b) ?u"
    using assms(2,3,4) by (simp add: dnsSettle_def Let_def)
  have oku: "storeOk ?u" using assms(1) by (rule upsertRecords_storeOk)
  have stu: "stored ?u (rid c) = Some ?p"
    using upsertOne_stored [OF assms(1), of ?p "rid c"] p(4) by (simp add: upsertRecords_def)
  have sets: "rid c \<notin> queueSetRef ?u Dns" "rid c \<notin> queueSetRef ?u Rdap"
    using assms(7,8) p by (auto simp: upsertRecords_def upsertOne_queueSetRef split: if_splits)
  have others: "claimedKey (phase x) \<noteq> Some (rid c)"
    if "x \<in> set ((workers s)[w := (workers s ! w)\<lparr>phase := Written c b\<rparr>])" for x
  proof -
    from that obtain i where i: "i < length (workers s)"
      "x = (workers s)[w := (workers s ! w)\<lparr>phase := Written c b\<rparr>] ! i"
      by (auto simp: in_set_conv_nth)
    show ?thesis
    proof (cases "i = w")
      case True
      then show ?thesis using i by simp
    next
      case False
      have "card {j. j < length (workers s) \<and> claimedKey (phase (workers s ! j)) = Some (rid c)} \<le> Suc 0"
        using assms(6) by (simp add: length_filter_conv_card)
      moreover have "w \<in> {j. j < length (workers s) \<and> claimedKey (phase (workers s ! j)) = Some (rid c)}"
        using assms(2,4) by simp
      ultimately have "claimedKey (phase (workers s ! i)) \<noteq> Some (rid c)"
        using False i(1) by (auto simp: card_le_Suc0_iff_eq)
      then show ?thesis using False i by simp
    qed
  qed
  have st: "stored (setPhase w (Written c b) ?u) (rid c) = stored ?u (rid c)"
    by (simp add: stored_def cong: option.case_cong)
  have "settledAs st (rid c) (setPhase w (Written c b) ?u)"
    unfolding settledAs_def
    using oku others sets assms(9) p by (simp add: st stu list_all_iff)
  then show ?thesis by (simp add: settle st stu)
qed

text \<open>
  Claim C7. A worker of the DNS stage has claimed the queued item \<open>c\<close>; it is the only
  worker that has the id claimed, and the id is in neither membership set and not in
  flight in the verify stage. Its lookup comes back with an authoritative positive
  answer. Then the record written back has status \<open>taken\<close> and RDAP status
  \<open>not_checked\<close> and is no candidate of the verify stage. And after any further
  events, as long as the stored records are not loaded anew and \<open>createId\<close> does not
  return the same id again, the record stored for the id, if any, still has status
  \<open>taken\<close> and RDAP status \<open>not_checked\<close> and is no candidate, and the id is
  neither in the verify queue nor in flight in the verify stage.
\<close>

theorem taken_never_verified:
  assumes "storeOk s"
    and "w < length (workers s)" and "wstage (workers s ! w) = Dns"
    and "phase (workers s ! w) = Claimed c b"
    and "authoritativePositive reply"
    and "length (filter (\<lambda>x. claimedKey (phase x) = Some (rid c)) (workers s)) \<le> 1"
    and "rid c \<notin> queueSetRef s Dns" and "rid c \<notin> queueSetRef s Rdap"
    and "rid c \<notin> inFlight s Rdap"
    and "list_all (quietFor (rid c)) es"
  shows "stored (dnsSettle w now reply rr s) (rid c)
        = Some (runDnsLookup (c\<lparr>status := Checking\<rparr>) now reply rr)
    \<and> status (runDnsLookup (c\<lparr>status := Checking\<rparr>) now reply rr) = Taken
    \<and> rdapStatus (runDnsLookup (c\<lparr>status := Checking\<rparr>) now reply rr) = NotChecked
    \<and> \<not> isRdapCandidate (runDnsLookup (c\<lparr>status := Checking\<rparr>) now reply rr)
    \<and> (case stored (run lc es (dnsSettle w now reply rr s)) (rid c) of
          None \<Rightarrow> True
        | Some r \<Rightarrow> status r = Taken \<and> rdapStatus r = NotChecked \<and> \<not> isRdapCandidate r)
    \<and> rid c \<notin> queueSetRef (run lc es (dnsSettle w now reply rr s)) Rdap
    \<and> rid c \<notin> inFlight (run lc es (dnsSettle w now reply rr s)) Rdap"
proof -
  let ?t = "dnsSettle w now reply rr s"
  have "status (runDnsLookup (c\<lparr>status := Checking\<rparr>) now reply rr) = Taken
      \<and> rdapStatus (runDnsLookup (c\<lparr>status := Checking\<rparr>) now reply rr) = NotChecked
      \<and> (Taken = Taken \<or> Taken = Unknown)"
    using runDnsLookup_positive_not_candidate [OF assms(5)] by simp
  from settledAs_established [OF assms(1-4) this assms(6-9)]
  have est: "settledAs Taken (rid c) ?t"
    and st: "stored ?t (rid c) = Some (runDnsLookup (c\<lparr>status := Checking\<rparr>) now reply rr)"
    by simp_all
  have later: "settledAs Taken (rid c) (run lc es ?t)"
    by (rule settledAs_run [OF est assms(10)])
  then have "case stored (run lc es ?t) (rid c) of None \<Rightarrow> True
      | Some r \<Rightarrow> status r = Taken \<and> rdapStatus r = NotChecked \<and> \<not> isRdapCandidate r"
    by (auto simp: settledAs_def isRdapCandidate_def split: option.splits)
  moreover have "rid c \<notin> queueSetRef (run lc es ?t) Rdap" "rid c \<notin> inFlight (run lc es ?t) Rdap"
    using later by (simp_all add: settledAs_def)
  ultimately show ?thesis
    using st runDnsLookup_positive_not_candidate [OF assms(5)] by simp
qed

theorem taken_never_verified_witness:
  "phase (workers (run asciiLower [Hydrate [exampleQueued], Start Dns] mount) ! 0)
      = Claimed exampleQueued 0
   \<and> authoritativePositive (DnsResponse 200 (Json (Some (Finite 0))))
   \<and> list_all (quietFor (js ''k2'')) [Release 0, Resume 0, Finish 0]
   \<and> map_option status (stored (run asciiLower [Release 0, Resume 0, Finish 0]
        (dnsSettle 0 9 (DnsResponse 200 (Json (Some (Finite 0)))) RdapFetchFailed
          (run asciiLower [Hydrate [exampleQueued], Start Dns] mount))) (js ''k2'')) = Some Taken
   \<and> js ''k2'' \<notin> inFlight (run asciiLower [Release 0, Resume 0, Finish 0]
        (dnsSettle 0 9 (DnsResponse 200 (Json (Some (Finite 0)))) RdapFetchFailed
          (run asciiLower [Hydrate [exampleQueued], Start Dns] mount))) Rdap"
proof -
  let ?s = "run asciiLower [Hydrate [exampleQueued], Start Dns] mount"
  let ?es = "[Release 0, Resume 0, Finish 0]"
  let ?reply = "DnsResponse 200 (Json (Some (Finite 0)))"
  have ok: "storeOk ?s"
    using run_inv [of asciiLower mount "[Hydrate [exampleQueued], Start Dns]"] mount_inv
    by (simp add: mount_def liveWorkers_def)
  have facts: "0 < length (workers ?s)" "wstage (workers ?s ! 0) = Dns"
    "phase (workers ?s ! 0) = Claimed exampleQueued 0"
    "length (filter (\<lambda>x. claimedKey (phase x) = Some (js ''k2'')) (workers ?s)) \<le> 1"
    "js ''k2'' \<notin> queueSetRef ?s Dns" "js ''k2'' \<notin> queueSetRef ?s Rdap"
    "js ''k2'' \<notin> inFlight ?s Rdap"
    unfolding exampleQueued_def by code_simp+
  have pos: "authoritativePositive ?reply"
    by (simp add: authoritativePositive_def responseOk_def)
  have quiet: "list_all (quietFor (js ''k2'')) ?es" by simp
  have k: "rid exampleQueued = js ''k2''" by (simp add: exampleQueued_def)
  have final: "map_option status (stored (run asciiLower ?es
        (dnsSettle 0 9 ?reply RdapFetchFailed ?s)) (js ''k2'')) = Some Taken"
    unfolding exampleQueued_def by code_simp
  from taken_never_verified [where s = ?s and w = 0 and c = exampleQueued and b = 0
      and reply = ?reply and es = ?es and lc = asciiLower and now = 9 and rr = RdapFetchFailed,
      unfolded k, OF ok facts(1,2,3) pos facts(4,5,6,7) quiet]
  have "js ''k2'' \<notin> inFlight (run asciiLower ?es (dnsSettle 0 9 ?reply RdapFetchFailed ?s)) Rdap"
    by simp
  with facts(3) pos quiet final show ?thesis by simp
qed







end
